theory Spec2Isabelle
  imports Main "HOL-Library.Word" "HOL-Library.Finite_Map" "HOL-Library.Multiset"
    "HOL-Library.Char_ord" "HOL-Library.List_Lexorder" "HOL-Library.Monad_Syntax"
begin

section \<open>The user store of chirpy (database/database\_user.go)\<close>

text \<open>
  The store keeps one JSON document in one file. Every operation reads the whole file,
  decodes it, changes the decoded document in memory, encodes it and writes the whole
  file back. The model follows the source function by function: the file system is an
  explicit state that every operation takes and returns, every error return of the source
  is a branch that returns the error, and Go's run-time panic on a write to a nil map is
  a branch of its own.
\<close>

subsection \<open>Data\<close>

type_synonym byte = "8 word"

text \<open>
  \<^verbatim>\<open>type User struct { Email string; ID int; Password []byte; RefreshToken string; IsChirpyRed bool }\<close>

  Go's \<^verbatim>\<open>int\<close> is modelled by \<^typ>\<open>int\<close>: the only arithmetic of the source is
  \<^verbatim>\<open>len(m) + 1\<close> and \<^verbatim>\<open>ID - 1\<close> on an \<^verbatim>\<open>ID\<close> that is positive, neither of which
  can leave the 64-bit range. A \<^verbatim>\<open>[]byte\<close> is nil (\<open>None\<close>) or a sequence of bytes; JSON writes the two differently.
\<close>

record User =
  Email :: string
  ID :: int
  Password :: "byte list option"
  RefreshToken :: string
  IsChirpyRed :: bool

text \<open>The zero value \<^verbatim>\<open>User{}\<close>.\<close>

definition User_zero :: User where
  "User_zero = \<lparr>Email = [], ID = 0, Password = None, RefreshToken = [], IsChirpyRed = False\<rparr>"

text \<open>
  A Go \<^verbatim>\<open>map[int]User\<close> is either nil or a finite map. \<^verbatim>\<open>len\<close> and a lookup
  treat nil as the empty map; an assignment to an entry of a nil map panics.
\<close>

type_synonym gomap = "(int, User) fmap option"

definition len_map :: "gomap \<Rightarrow> int" where
  "len_map g = (case g of None \<Rightarrow> 0 | Some m \<Rightarrow> int (fcard (fmdom m)))"

text \<open>The comma-ok lookup \<^verbatim>\<open>user, ok := m[k]\<close>: \<open>None\<close> when \<^verbatim>\<open>ok\<close> is false.\<close>

definition lookup_map :: "gomap \<Rightarrow> int \<Rightarrow> User option" where
  "lookup_map g k = (case g of None \<Rightarrow> None | Some m \<Rightarrow> fmlookup m k)"

text \<open>The plain lookup \<^verbatim>\<open>m[k]\<close>: the zero value when the key is absent.\<close>

definition index_map :: "gomap \<Rightarrow> int \<Rightarrow> User" where
  "index_map g k = (case lookup_map g k of None \<Rightarrow> User_zero | Some u \<Rightarrow> u)"

text \<open>The assignment \<^verbatim>\<open>m[k] = v\<close>: \<open>None\<close> is the panic on a nil map.\<close>

definition assign_map :: "gomap \<Rightarrow> int \<Rightarrow> User \<Rightarrow> gomap option" where
  "assign_map g k v = (case g of None \<Rightarrow> None | Some m \<Rightarrow> Some (Some (fmupd k v m)))"

text \<open>\<^verbatim>\<open>type DBUserStructure struct { Users map[int]User }\<close>\<close>

record DBUserStructure =
  Users :: gomap

subsection \<open>Errors\<close>

text \<open>
  \<open>ErrNotExist\<close> and \<open>ErrRead\<close> are the failures of \<^verbatim>\<open>os.ReadFile\<close>, \<open>ErrSyntax\<close> the
  failure of \<^verbatim>\<open>json.Unmarshal\<close>, \<open>ErrWrite\<close> the failure of \<^verbatim>\<open>os.WriteFile\<close>; the
  specification calls the four of them \<^verbatim>\<open>IOError\<close>. \<open>ErrInvalidID\<close> is
  \<^verbatim>\<open>errors.New("invalid ID")\<close> of \<^verbatim>\<open>GetUserByID\<close> (\<^verbatim>\<open>InvalidArgument\<close> in the
  specification), \<open>ErrInvalidUserID\<close> is \<^verbatim>\<open>errors.New("invalid user id")\<close> of
  \<^verbatim>\<open>UpgradeUser\<close> (\<^verbatim>\<open>NotFound\<close>). \<open>PanicNilMap\<close> is the run-time panic
  "assignment to entry in nil map".
\<close>

datatype error =
    ErrNotExist
  | ErrRead
  | ErrSyntax
  | ErrWrite
  | ErrInvalidID
  | ErrInvalidUserID
  | PanicNilMap

subsection \<open>UTF-8 (package unicode/utf8)\<close>

text \<open>
  A \<^verbatim>\<open>string\<close> of Go is a sequence of bytes, of any bytes; a JSON text is UTF-8. These are
  the functions of \<^verbatim>\<open>unicode/utf8\<close> that the JSON encoder and decoder call, with a rune
  as a natural number. \<open>DecodeRune\<close> returns the rune at the head of the text and the
  number of bytes it takes, and \<open>(RuneError, 1)\<close> when no valid encoding starts there.
\<close>

definition RuneError :: nat where
  "RuneError = 0xFFFD"

definition first_size :: "nat \<Rightarrow> nat" where
  "first_size p0 =
     (if p0 < 0x80 then 1
      else if p0 < 0xC2 then 0
      else if p0 < 0xE0 then 2
      else if p0 < 0xF0 then 3
      else if p0 < 0xF5 then 4
      else 0)"

definition accept_lo :: "nat \<Rightarrow> nat" where
  "accept_lo p0 = (if p0 = 0xE0 then 0xA0 else if p0 = 0xF0 then 0x90 else 0x80)"

definition accept_hi :: "nat \<Rightarrow> nat" where
  "accept_hi p0 = (if p0 = 0xED then 0x9F else if p0 = 0xF4 then 0x8F else 0xBF)"

definition DecodeRune :: "string \<Rightarrow> nat \<times> nat" where
  "DecodeRune p =
     (if length p < 1 then (RuneError, 0)
      else
        let p0 = of_char (p ! 0); sz = first_size p0 in
        if sz = 1 then (p0, 1)
        else if sz = 0 then (RuneError, 1)
        else if length p < sz then (RuneError, 1)
        else
          let b1 = of_char (p ! 1) in
          if b1 < accept_lo p0 \<or> accept_hi p0 < b1 then (RuneError, 1)
          else if sz \<le> 2 then ((p0 mod 32) * 64 + b1 mod 64, 2)
          else
            let b2 = of_char (p ! 2) in
            if b2 < 0x80 \<or> 0xBF < b2 then (RuneError, 1)
            else if sz \<le> 3 then ((p0 mod 16) * 4096 + (b1 mod 64) * 64 + b2 mod 64, 3)
            else
              let b3 = of_char (p ! 3) in
              if b3 < 0x80 \<or> 0xBF < b3 then (RuneError, 1)
              else ((p0 mod 8) * 262144 + (b1 mod 64) * 4096 + (b2 mod 64) * 64 + b3 mod 64, 4))"

definition EncodeRune :: "nat \<Rightarrow> string" where
  "EncodeRune r =
     (if r \<le> 0x7F then [char_of r]
      else if r \<le> 0x7FF then [char_of (0xC0 + r div 64), char_of (0x80 + r mod 64)]
      else if r > 0x10FFFF \<or> (0xD800 \<le> r \<and> r \<le> 0xDFFF) then
        [char_of (0xEF::nat), char_of (0xBF::nat), char_of (0xBD::nat)]
      else if r \<le> 0xFFFF then
        [char_of (0xE0 + r div 4096), char_of (0x80 + (r div 64) mod 64), char_of (0x80 + r mod 64)]
      else
        [char_of (0xF0 + r div 262144), char_of (0x80 + (r div 4096) mod 64),
         char_of (0x80 + (r div 64) mod 64), char_of (0x80 + r mod 64)])"

text \<open>
  The decoder consumes between one and four bytes of a text that is not empty; the
  recursions over a text below terminate by this.
\<close>

lemma DecodeRune_size: "p \<noteq> [] \<Longrightarrow> 1 \<le> snd (DecodeRune p) \<and> snd (DecodeRune p) \<le> 4"
  by (cases p) (simp_all add: DecodeRune_def Let_def)

text \<open>A decoding other than "invalid byte".\<close>

definition valid_rune :: "nat \<times> nat \<Rightarrow> bool" where
  "valid_rune rn = (\<not> (fst rn = RuneError \<and> snd rn = 1))"

text \<open>
  \<^verbatim>\<open>utf8.ValidString\<close>: the text is a sequence of valid encodings of runes.
\<close>

function ValidString :: "string \<Rightarrow> bool" where
  "ValidString s =
     (if s = [] then True
      else if valid_rune (DecodeRune s) then ValidString (drop (snd (DecodeRune s)) s)
      else False)"
  by pat_completeness auto

termination
proof (relation "measure length")
  fix s :: string
  assume "s \<noteq> []"
  then show "(drop (snd (DecodeRune s)) s, s) \<in> measure length"
    using DecodeRune_size [of s] by simp
qed simp

declare ValidString.simps [simp del]

text \<open>
  What a string comes back as: every byte that starts no valid UTF-8 sequence is replaced by
  the three bytes of U+FFFD, everything else stays.
\<close>

function coerce :: "string \<Rightarrow> string" where
  "coerce s =
     (if s = [] then []
      else
        (if valid_rune (DecodeRune s) then take (snd (DecodeRune s)) s else EncodeRune RuneError)
        @ coerce (drop (snd (DecodeRune s)) s))"
  by pat_completeness auto

termination
proof (relation "measure length")
  fix s :: string
  assume "s \<noteq> []"
  then show "(drop (snd (DecodeRune s)) s, s) \<in> measure length"
    using DecodeRune_size [of s] by simp
qed simp

declare coerce.simps [simp del]

text \<open>
  A record and a document as the JSON text gives them back: the two strings of every record
  coerced, everything else as it is.
\<close>

definition coerce_User :: "User \<Rightarrow> User" where
  "coerce_User u = u\<lparr>Email := coerce (Email u), RefreshToken := coerce (RefreshToken u)\<rparr>"

definition coerce_document :: "DBUserStructure \<Rightarrow> DBUserStructure" where
  "coerce_document s = s\<lparr>Users := map_option (fmmap coerce_User) (Users s)\<rparr>"

subsection \<open>The file\<close>

text \<open>
  At the level of the store the bytes of the file are kept abstract: \<open>Encoded s\<close> is the
  JSON text that \<^verbatim>\<open>json.Marshal\<close> writes for the document \<open>s\<close>, and \<open>Garbled\<close>
  stands for bytes that \<^verbatim>\<open>json.Unmarshal\<close> rejects. The encoder and decoder are Go's
  \<^verbatim>\<open>encoding/json\<close>, not code of this package; the store passes the bytes between
  them and the file unchanged. What the decoder reads from the text of \<open>s\<close> is \<open>s\<close> with
  every string coerced to valid UTF-8, because that is how the encoder writes a string.
  The section on the JSON text models both on the bytes themselves and proves this
  (lemma \<open>Unmarshal_Marshal\<close>).
\<close>

datatype bytes = Garbled | Encoded DBUserStructure

datatype stored = NotExist | Unreadable | Content bytes

text \<open>
  How \<^verbatim>\<open>os.WriteFile\<close> can fail: \<open>Refused\<close>, the file cannot be opened for writing and
  stays as it is; \<open>Partial\<close>, the file was truncated and the write stopped before the end,
  which leaves a proper prefix of a JSON object, so no JSON text.
\<close>

datatype write_fault = Refused | Partial

text \<open>
  The state of the world an operation runs in: the file at \<^verbatim>\<open>db.path\<close>, and what the
  next \<^verbatim>\<open>os.WriteFile\<close> will do (\<open>None\<close>: succeed). The handle \<^verbatim>\<open>*DB\<close> adds a fixed
  path and the mutex; every exported operation holds the mutex from its first to its last
  statement, so the operations are modelled as atomic state transformers.
\<close>

record disk =
  at_path :: stored
  write_fault :: "write_fault option"

definition os_ReadFile :: "disk \<Rightarrow> error + bytes" where
  "os_ReadFile d =
     (case at_path d of
        NotExist \<Rightarrow> Inl ErrNotExist
      | Unreadable \<Rightarrow> Inl ErrRead
      | Content b \<Rightarrow> Inr b)"

definition os_WriteFile :: "disk \<Rightarrow> bytes \<Rightarrow> error option \<times> disk" where
  "os_WriteFile d b =
     (case write_fault d of
        None \<Rightarrow> (None, d\<lparr>at_path := Content b\<rparr>)
      | Some Refused \<Rightarrow> (Some ErrWrite, d)
      | Some Partial \<Rightarrow> (Some ErrWrite, d\<lparr>at_path := Content Garbled\<rparr>))"

definition json_Marshal :: "DBUserStructure \<Rightarrow> error + bytes" where
  "json_Marshal s = Inr (Encoded s)"

definition json_Unmarshal :: "bytes \<Rightarrow> error + DBUserStructure" where
  "json_Unmarshal b =
     (case b of Garbled \<Rightarrow> Inl ErrSyntax | Encoded s \<Rightarrow> Inr (coerce_document s))"

subsection \<open>Loading and writing the document\<close>

definition loadUserDB :: "disk \<Rightarrow> error + DBUserStructure" where
  "loadUserDB d =
     (case os_ReadFile d of
        Inl err \<Rightarrow> Inl err
      | Inr file_bytes \<Rightarrow>
          (case json_Unmarshal file_bytes of
             Inl err \<Rightarrow> Inl err
           | Inr database \<Rightarrow> Inr database))"

definition writeUserDB :: "disk \<Rightarrow> DBUserStructure \<Rightarrow> error option \<times> disk" where
  "writeUserDB d dbUserStructure =
     (case json_Marshal dbUserStructure of
        Inl err \<Rightarrow> (Some err, d)
      | Inr file_bytes \<Rightarrow>
          (case os_WriteFile d file_bytes of
             (Some err, d') \<Rightarrow> (Some err, d')
           | (None, d') \<Rightarrow> (None, d')))"

definition ensureUserDB :: "disk \<Rightarrow> error option \<times> disk" where
  "ensureUserDB d =
     (case os_ReadFile d of
        Inl ErrNotExist \<Rightarrow> writeUserDB d \<lparr>Users = Some fmempty\<rparr>
      | _ \<Rightarrow> (None, d))"

definition NewUserDB :: "disk \<Rightarrow> (error + unit) \<times> disk" where
  "NewUserDB d =
     (case ensureUserDB d of
        (Some err, d') \<Rightarrow> (Inl err, d')
      | (None, d') \<Rightarrow> (Inr (), d'))"

subsection \<open>The operations\<close>

definition CreateUser :: "string \<Rightarrow> byte list option \<Rightarrow> disk \<Rightarrow> (error + User) \<times> disk" where
  "CreateUser body password d =
     (case loadUserDB d of
        Inl err \<Rightarrow> (Inl err, d)
      | Inr dbStructure \<Rightarrow>
          (let nextID = len_map (Users dbStructure) + 1 in
           case assign_map (Users dbStructure) nextID
                  \<lparr>Email = body, ID = nextID, Password = password,
                   RefreshToken = [], IsChirpyRed = False\<rparr> of
             None \<Rightarrow> (Inl PanicNilMap, d)
           | Some users \<Rightarrow>
               (let dbStructure' = dbStructure\<lparr>Users := users\<rparr> in
                case writeUserDB d dbStructure' of
                  (Some err, d') \<Rightarrow> (Inl err, d')
                | (None, d') \<Rightarrow> (Inr (index_map (Users dbStructure') nextID), d'))))"

text \<open>
  \<^verbatim>\<open>for _, user := range dbStructure.Users { users = append(users, user) }\<close>

  Go leaves the order in which \<^verbatim>\<open>range\<close> visits a map unspecified. The order is made a
  parameter: \<open>ks\<close> is the sequence of keys in the order of the visit, and \<open>range_order\<close>
  says that it visits every key of the map exactly once.
\<close>

definition range_order :: "gomap \<Rightarrow> int list \<Rightarrow> bool" where
  "range_order g ks =
     (case g of None \<Rightarrow> ks = [] | Some m \<Rightarrow> distinct ks \<and> set ks = fset (fmdom m))"

definition range_map :: "gomap \<Rightarrow> int list \<Rightarrow> User list" where
  "range_map g ks = (case g of None \<Rightarrow> [] | Some m \<Rightarrow> List.map_filter (fmlookup m) ks)"

fun append_all :: "User list \<Rightarrow> User list \<Rightarrow> User list" where
  "append_all users [] = users"
| "append_all users (user # rest) = append_all (users @ [user]) rest"

text \<open>
  \<^verbatim>\<open>sort.Slice(users, func(i, j int) bool { return users[i].ID < users[j].ID })\<close>

  \<^verbatim>\<open>sort.Slice\<close> orders the slice by the given comparison and is not stable. It is
  modelled by insertion sort on the \<open>ID\<close>. Insertion sort is stable, which loses no
  behaviour: two records with the same \<open>ID\<close> come out in the order of the visit, the visit
  can be in any order, and so every sorted arrangement of the records is the result for
  some \<open>ks\<close> (lemma \<open>sort_Slice_any_order\<close>).
\<close>

definition sort_Slice :: "User list \<Rightarrow> User list" where
  "sort_Slice users = sort_key ID users"

definition GetUser :: "int list \<Rightarrow> disk \<Rightarrow> (error + User list) \<times> disk" where
  "GetUser ks d =
     (case loadUserDB d of
        Inl err \<Rightarrow> (Inl err, d)
      | Inr dbStructure \<Rightarrow>
          (let users = append_all [] (range_map (Users dbStructure) ks)
           in (Inr (sort_Slice users), d)))"

definition GetUserByID :: "int list \<Rightarrow> int \<Rightarrow> disk \<Rightarrow> (error + User) \<times> disk" where
  "GetUserByID ks i d =
     (case GetUser ks d of
        (Inl err, d') \<Rightarrow> (Inl err, d')
      | (Inr users, d') \<Rightarrow>
          (if int (length users) < i \<or> i \<le> 0 then (Inl ErrInvalidID, d')
           else (Inr (users ! nat (i - 1)), d')))"

definition UpdateUserDB :: "int \<Rightarrow> string \<Rightarrow> byte list option \<Rightarrow> disk \<Rightarrow> (error + User) \<times> disk" where
  "UpdateUserDB i body password d =
     (case loadUserDB d of
        Inl err \<Rightarrow> (Inl err, d)
      | Inr dbStructure \<Rightarrow>
          (case (case lookup_map (Users dbStructure) i of
                   Some user \<Rightarrow>
                     (case assign_map (Users dbStructure) i
                             (user\<lparr>Email := body, Password := password\<rparr>) of
                        None \<Rightarrow> None
                      | Some users \<Rightarrow> Some (dbStructure\<lparr>Users := users\<rparr>))
                 | None \<Rightarrow> Some dbStructure) of
             None \<Rightarrow> (Inl PanicNilMap, d)
           | Some dbStructure' \<Rightarrow>
               (case writeUserDB d dbStructure' of
                  (Some err, d') \<Rightarrow> (Inl err, d')
                | (None, d') \<Rightarrow> (Inr (index_map (Users dbStructure') i), d'))))"

definition UpgradeUser :: "int \<Rightarrow> disk \<Rightarrow> error option \<times> disk" where
  "UpgradeUser i d =
     (case loadUserDB d of
        Inl err \<Rightarrow> (Some err, d)
      | Inr dbStructure \<Rightarrow>
          (case lookup_map (Users dbStructure) i of
             Some user \<Rightarrow>
               (case assign_map (Users dbStructure) i (user\<lparr>IsChirpyRed := True\<rparr>) of
                  None \<Rightarrow> (Some PanicNilMap, d)
                | Some users \<Rightarrow> writeUserDB d (dbStructure\<lparr>Users := users\<rparr>))
           | None \<Rightarrow> (Some ErrInvalidUserID, d)))"

definition RevokeToken :: "int \<Rightarrow> disk \<Rightarrow> error option \<times> disk" where
  "RevokeToken i d =
     (case loadUserDB d of
        Inl err \<Rightarrow> (Some err, d)
      | Inr dbStructure \<Rightarrow>
          (case (case lookup_map (Users dbStructure) i of
                   Some user \<Rightarrow>
                     (case assign_map (Users dbStructure) i (user\<lparr>RefreshToken := []\<rparr>) of
                        None \<Rightarrow> None
                      | Some users \<Rightarrow> Some (dbStructure\<lparr>Users := users\<rparr>))
                 | None \<Rightarrow> Some dbStructure) of
             None \<Rightarrow> (Some PanicNilMap, d)
           | Some dbStructure' \<Rightarrow> writeUserDB d dbStructure'))"

definition StoreToken :: "int \<Rightarrow> string \<Rightarrow> disk \<Rightarrow> error option \<times> disk" where
  "StoreToken i token d =
     (case loadUserDB d of
        Inl err \<Rightarrow> (Some err, d)
      | Inr dbStructure \<Rightarrow>
          (case (case lookup_map (Users dbStructure) i of
                   Some user \<Rightarrow>
                     (case assign_map (Users dbStructure) i (user\<lparr>RefreshToken := token\<rparr>) of
                        None \<Rightarrow> None
                      | Some users \<Rightarrow> Some (dbStructure\<lparr>Users := users\<rparr>))
                 | None \<Rightarrow> Some dbStructure) of
             None \<Rightarrow> (Some PanicNilMap, d)
           | Some dbStructure' \<Rightarrow> writeUserDB d dbStructure'))"

subsection \<open>Sequences of calls\<close>

text \<open>
  The record that \<^verbatim>\<open>CreateUser\<close> builds for the ID \<open>i\<close> and the arguments
  \<open>a = (body, password)\<close>:
  \<^verbatim>\<open>User{Email: body, ID: nextID, Password: password}\<close>, the other fields zero.
\<close>

definition new_user :: "int \<Rightarrow> string \<times> byte list option \<Rightarrow> User" where
  "new_user i a = \<lparr>Email = fst a, ID = i, Password = snd a, RefreshToken = [], IsChirpyRed = False\<rparr>"

text \<open>
  A caller that makes one \<^verbatim>\<open>CreateUser\<close> call after the other, with nothing in
  between: the results of the calls in order, and the state after the last one.
\<close>

fun create_seq :: "(string \<times> byte list option) list \<Rightarrow> disk \<Rightarrow> (error + User) list \<times> disk" where
  "create_seq [] d = ([], d)"
| "create_seq (a # rest) d =
     (case CreateUser (fst a) (snd a) d of
        (r, d') \<Rightarrow> (case create_seq rest d' of (rs, d'') \<Rightarrow> (r # rs, d'')))"

text \<open>
  A caller that makes any of the five writing calls, one after the other. Each call comes
  with what \<^verbatim>\<open>os.WriteFile\<close> does during that call, so the environment may change
  from call to call.
\<close>

datatype call =
    Create string "byte list option"
  | Update int string "byte list option"
  | Upgrade int
  | StoreRefreshToken int string
  | RevokeRefreshToken int

fun after_call :: "call \<Rightarrow> disk \<Rightarrow> disk" where
  "after_call (Create body password) d = snd (CreateUser body password d)"
| "after_call (Update i body password) d = snd (UpdateUserDB i body password d)"
| "after_call (Upgrade i) d = snd (UpgradeUser i d)"
| "after_call (StoreRefreshToken i token) d = snd (StoreToken i token d)"
| "after_call (RevokeRefreshToken i) d = snd (RevokeToken i d)"

fun after_calls :: "(write_fault option \<times> call) list \<Rightarrow> disk \<Rightarrow> disk" where
  "after_calls [] d = d"
| "after_calls (wc # rest) d = after_calls rest (after_call (snd wc) (d\<lparr>write_fault := fst wc\<rparr>))"


subsection \<open>The records of a document\<close>

text \<open>The records of a map as a multiset: one record for every key.\<close>

definition records :: "gomap \<Rightarrow> User multiset" where
  "records g =
     (case g of
        None \<Rightarrow> {#}
      | Some m \<Rightarrow> image_mset (\<lambda>k. the (fmlookup m k)) (mset_set (fset (fmdom m))))"


text \<open>
  The document on disk, when there is one, stores every record under the key that is the
  record's \<open>ID\<close>.
\<close>

definition keyed_by_ID :: "disk \<Rightarrow> bool" where
  "keyed_by_ID d =
     (case loadUserDB d of
        Inl _ \<Rightarrow> True
      | Inr s \<Rightarrow> (case Users s of None \<Rightarrow> True | Some m \<Rightarrow> fmpred (\<lambda>k u. ID u = k) m))"


subsection \<open>Example stores\<close>

text \<open>
  Two records, a document that holds them under the keys 1 and 2, a document whose records
  carry IDs that are not their keys, and the disk that holds a given document.
\<close>

definition alice :: User where
  "alice = \<lparr>Email = ''a@x.com'', ID = 1, Password = Some [1, 2], RefreshToken = ''tok'', IsChirpyRed = False\<rparr>"

definition bob :: User where
  "bob = \<lparr>Email = ''b@x.com'', ID = 2, Password = Some [3], RefreshToken = [], IsChirpyRed = False\<rparr>"

definition two_users :: DBUserStructure where
  "two_users = \<lparr>Users = Some (fmupd 2 bob (fmupd 1 alice fmempty))\<rparr>"

definition swapped :: DBUserStructure where
  "swapped = \<lparr>Users = Some (fmupd 2 (alice\<lparr>ID := 3\<rparr>) (fmupd 1 (bob\<lparr>ID := 7\<rparr>) fmempty))\<rparr>"

definition on_disk :: "DBUserStructure \<Rightarrow> write_fault option \<Rightarrow> disk" where
  "on_disk s w = \<lparr>at_path = Content (Encoded s), write_fault = w\<rparr>"

text \<open>
  A record with escapes, multi-byte runes, a negative ID and bytes of every kind in its
  password, a document that holds it under a key that sorts, as text, between 1 and 2, and
  a record whose email is a single byte that no UTF-8 sequence starts with, alone in a
  document.
\<close>

definition tricky :: User where
  "tricky =
     \<lparr>Email = [CHR ''a'', CHR 0x22, CHR 0x5C, CHR 0x0A, CHR 0x01, CHR 0x7F, CHR 0xE2, CHR 0x80,
               CHR 0xA9, CHR 0xC3, CHR 0xA9, CHR ''<''],
      ID = -12, Password = Some [0xFF, 0, 1, 2], RefreshToken = ''tok'', IsChirpyRed = True\<rparr>"

definition three_users :: DBUserStructure where
  "three_users = \<lparr>Users = Some (fmupd 10 tricky (fmupd 2 bob (fmupd 1 alice fmempty)))\<rparr>"

definition mallory :: User where
  "mallory = \<lparr>Email = [CHR 0xFF], ID = 1, Password = Some [1], RefreshToken = [], IsChirpyRed = False\<rparr>"

definition only :: "User \<Rightarrow> DBUserStructure" where
  "only u = \<lparr>Users = Some (fmupd 1 u fmempty)\<rparr>"


section \<open>The JSON text (encoding/json)\<close>

text \<open>
  This section models, on the bytes, what \<^verbatim>\<open>json.Marshal\<close> writes for a
  \<^verbatim>\<open>DBUserStructure\<close> and what \<^verbatim>\<open>json.Unmarshal\<close> reads from such a text. It follows
  the code of Go's standard library (as of go1.22): \<^verbatim>\<open>appendString\<close>, \<^verbatim>\<open>encodeByteSlice\<close>,
  \<^verbatim>\<open>mapEncoder\<close> and the struct encoder on the way out, the scanner, \<^verbatim>\<open>unquoteBytes\<close>
  and the literal store on the way in, with \<^verbatim>\<open>unicode/utf8\<close>, \<^verbatim>\<open>unicode/utf16\<close>,
  \<^verbatim>\<open>encoding/base64\<close> and \<^verbatim>\<open>strconv\<close> below them. A text is a \<^typ>\<open>string\<close>, a list
  of bytes.

  The encoder is modelled in full for the two types of the package. The decoder is modelled
  on the texts the encoder can write: compact, the fields of a record in the order of the
  struct, every field present. String literals are read in full generality (all escapes,
  surrogate pairs, invalid UTF-8). On any other text the model answers \<open>ErrSyntax\<close>, where
  Go accepts more (white space, fields in any order, unknown or missing fields); nothing
  below depends on what the decoder does outside the texts of the encoder.
\<close>

subsection \<open>Strings (encoding/json, appendString and unquoteBytes)\<close>

definition hex :: "nat \<Rightarrow> char" where
  "hex n = ''0123456789abcdef'' ! n"

definition htmlSafeSet :: "nat \<Rightarrow> bool" where
  "htmlSafeSet b =
     (0x20 \<le> b \<and> b < 0x80 \<and> b \<noteq> 0x22 \<and> b \<noteq> 0x26 \<and> b \<noteq> 0x3C \<and> b \<noteq> 0x3E \<and> b \<noteq> 0x5C)"

definition escape_byte :: "nat \<Rightarrow> string" where
  "escape_byte b =
     (if b = 0x5C \<or> b = 0x22 then [CHR 0x5C, char_of b]
      else if b = 0x08 then [CHR 0x5C, CHR ''b'']
      else if b = 0x0C then [CHR 0x5C, CHR ''f'']
      else if b = 0x0A then [CHR 0x5C, CHR ''n'']
      else if b = 0x0D then [CHR 0x5C, CHR ''r'']
      else if b = 0x09 then [CHR 0x5C, CHR ''t'']
      else [CHR 0x5C, CHR ''u'', CHR ''0'', CHR ''0'', hex (b div 16), hex (b mod 16)])"

text \<open>
  One round of the loop of \<^verbatim>\<open>appendString\<close> on the rest \<open>src[i:]\<close> of the string: what
  it appends to the output, and by how much it advances \<open>i\<close>.
\<close>

definition appendString_step :: "string \<Rightarrow> string \<times> nat" where
  "appendString_step src =
     (let b = of_char (hd src) in
      if b < 0x80 then
        (if htmlSafeSet b then ([hd src], 1) else (escape_byte b, 1))
      else
        let c = fst (DecodeRune (take 4 src)); size = snd (DecodeRune (take 4 src)) in
        if c = RuneError \<and> size = 1 then (CHR 0x5C # ''ufffd'', size)
        else if c = 0x2028 \<or> c = 0x2029 then (CHR 0x5C # ''u202'' @ [hex (c mod 16)], size)
        else (take size src, size))"

lemma appendString_step_advances: "src \<noteq> [] \<Longrightarrow> 1 \<le> snd (appendString_step src)"
  using DecodeRune_size [of "take 4 src"] by (simp add: appendString_step_def Let_def)

function appendString_from :: "string \<Rightarrow> string" where
  "appendString_from src =
     (if src = [] then []
      else fst (appendString_step src) @ appendString_from (drop (snd (appendString_step src)) src))"
  by pat_completeness auto

termination
proof (relation "measure length")
  fix src :: string
  assume "src \<noteq> []"
  then show "(drop (snd (appendString_step src)) src, src) \<in> measure length"
    using appendString_step_advances [of src] by simp
qed simp

declare appendString_from.simps [simp del]

definition appendString :: "string \<Rightarrow> string" where
  "appendString src = CHR 0x22 # appendString_from src @ [CHR 0x22]"

text \<open>
  \<^verbatim>\<open>getu4\<close>: the value of the four hexadecimal digits of an escape \<^verbatim>\<open>\uXXXX\<close> at the
  head of the text, \<open>None\<close> (Go's \<open>-1\<close>) when the text does not start with one.
\<close>

definition hexval :: "char \<Rightarrow> nat option" where
  "hexval c =
     (let b = of_char c in
      if 0x30 \<le> b \<and> b \<le> 0x39 then Some (b - 0x30)
      else if 0x61 \<le> b \<and> b \<le> 0x66 then Some (b - 0x61 + 10)
      else if 0x41 \<le> b \<and> b \<le> 0x46 then Some (b - 0x41 + 10)
      else None)"

definition getu4 :: "string \<Rightarrow> nat option" where
  "getu4 s =
     (if length s < 6 \<or> s ! 0 \<noteq> CHR 0x5C \<or> s ! 1 \<noteq> CHR ''u'' then None
      else
        case (hexval (s ! 2), hexval (s ! 3), hexval (s ! 4), hexval (s ! 5)) of
          (Some a, Some b, Some c, Some d) \<Rightarrow> Some (((a * 16 + b) * 16 + c) * 16 + d)
        | _ \<Rightarrow> None)"

text \<open>\<^verbatim>\<open>utf16.DecodeRune\<close> on a pair of surrogates; anything else is U+FFFD.\<close>

definition utf16_DecodeRune :: "nat \<Rightarrow> nat option \<Rightarrow> nat" where
  "utf16_DecodeRune r1 r2 =
     (case r2 of
        None \<Rightarrow> RuneError
      | Some r2' \<Rightarrow>
          if 0xD800 \<le> r1 \<and> r1 < 0xDC00 \<and> 0xDC00 \<le> r2' \<and> r2' < 0xE000
          then (r1 - 0xD800) * 1024 + (r2' - 0xDC00) + 0x10000
          else RuneError)"

text \<open>
  One round of the second loop of \<^verbatim>\<open>unquoteBytes\<close> on the rest \<open>s[r:]\<close> of the literal:
  the bytes it writes and by how much it advances \<open>r\<close>; \<open>None\<close> when it gives up.
\<close>

definition unquote_step :: "string \<Rightarrow> (string \<times> nat) option" where
  "unquote_step s =
     (let c = of_char (hd s) :: nat in
      if c = 0x5C then
        (if length s < 2 then None
         else
           let e = s ! 1 in
           if e = CHR 0x22 \<or> e = CHR 0x5C \<or> e = CHR ''/'' \<or> e = CHR 0x27 then Some ([e], 2)
           else if e = CHR ''b'' then Some ([CHR 0x08], 2)
           else if e = CHR ''f'' then Some ([CHR 0x0C], 2)
           else if e = CHR ''n'' then Some ([CHR 0x0A], 2)
           else if e = CHR ''r'' then Some ([CHR 0x0D], 2)
           else if e = CHR ''t'' then Some ([CHR 0x09], 2)
           else if e = CHR ''u'' then
             (case getu4 s of
                None \<Rightarrow> None
              | Some rr \<Rightarrow>
                  if 0xD800 \<le> rr \<and> rr < 0xE000 then
                    (let dec = utf16_DecodeRune rr (getu4 (drop 6 s)) in
                     if dec \<noteq> RuneError then Some (EncodeRune dec, 12)
                     else Some (EncodeRune RuneError, 6))
                  else Some (EncodeRune rr, 6))
           else None)
      else if c = 0x22 \<or> c < 0x20 then None
      else if c < 0x80 then Some ([hd s], 1)
      else Some (EncodeRune (fst (DecodeRune s)), snd (DecodeRune s)))"

lemma unquote_step_advances:
  "s \<noteq> [] \<Longrightarrow> unquote_step s = Some (out, n) \<Longrightarrow> 1 \<le> n"
  using DecodeRune_size [of s]
  by (auto simp: unquote_step_def Let_def split: if_splits option.splits)

function unquote_from :: "string \<Rightarrow> string option" where
  "unquote_from s =
     (if s = [] then Some []
      else
        case unquote_step s of
          None \<Rightarrow> None
        | Some (out, n) \<Rightarrow>
            (case unquote_from (drop n s) of
               None \<Rightarrow> None
             | Some t \<Rightarrow> Some (out @ t)))"
  by pat_completeness auto

termination
proof (relation "measure length")
  fix s :: string and x2 :: "string \<times> nat" and out :: string and n :: nat
  assume "s \<noteq> []" and "unquote_step s = Some x2" and "(out, n) = x2"
  then show "(drop n s, s) \<in> measure length"
    using unquote_step_advances [of s out n] by simp
qed simp

declare unquote_from.simps [simp del]

text \<open>
  The first loop of \<^verbatim>\<open>unquoteBytes\<close>: how far the literal goes without a backslash, a
  quote, a control character or invalid UTF-8.
\<close>

definition plain_step :: "string \<Rightarrow> nat" where
  "plain_step s =
     (let c = of_char (hd s) :: nat in
      if c = 0x5C \<or> c = 0x22 \<or> c < 0x20 then 0
      else if c < 0x80 then 1
      else if fst (DecodeRune s) = RuneError \<and> snd (DecodeRune s) = 1 then 0
      else snd (DecodeRune s))"

function plain_prefix :: "string \<Rightarrow> nat" where
  "plain_prefix s =
     (if s = [] \<or> plain_step s = 0 then 0
      else plain_step s + plain_prefix (drop (plain_step s) s))"
  by pat_completeness auto

termination
  by (relation "measure length") auto

declare plain_prefix.simps [simp del]

definition unquoteBytes :: "string \<Rightarrow> string option" where
  "unquoteBytes s =
     (if length s < 2 \<or> hd s \<noteq> CHR 0x22 \<or> last s \<noteq> CHR 0x22 then None
      else
        let s' = butlast (tl s); r = plain_prefix s' in
        if r = length s' then Some s'
        else
          case unquote_from (drop r s') of
            None \<Rightarrow> None
          | Some t \<Rightarrow> Some (take r s' @ t))"

text \<open>
  The scanner's walk over a string literal, from the byte after the opening quote: the
  literal ends at the first quote that no backslash precedes. The result is the text between
  the quotes and the text after the closing quote.
\<close>

fun scan_string :: "string \<Rightarrow> (string \<times> string) option" where
  "scan_string [] = None"
| "scan_string (c # cs) =
     (if c = CHR 0x22 then Some ([], cs)
      else if c = CHR 0x5C then
        (case cs of
           [] \<Rightarrow> None
         | e # cs' \<Rightarrow> map_option (\<lambda>(body, rest). (c # e # body, rest)) (scan_string cs'))
      else map_option (\<lambda>(body, rest). (c # body, rest)) (scan_string cs))"

subsection \<open>Base64 (encoding/base64, StdEncoding)\<close>

definition encodeStd :: string where
  "encodeStd = ''ABCDEFGHIJKLMNOPQRSTUVWXYZabcdefghijklmnopqrstuvwxyz0123456789+/''"

fun base64_Encode :: "byte list \<Rightarrow> string" where
  "base64_Encode (a # b # c # src) =
     (let val = unat a * 65536 + unat b * 256 + unat c in
      [encodeStd ! (val div 262144 mod 64), encodeStd ! (val div 4096 mod 64),
       encodeStd ! (val div 64 mod 64), encodeStd ! (val mod 64)] @ base64_Encode src)"
| "base64_Encode [a, b] =
     (let val = unat a * 65536 + unat b * 256 in
      [encodeStd ! (val div 262144 mod 64), encodeStd ! (val div 4096 mod 64),
       encodeStd ! (val div 64 mod 64), CHR ''=''])"
| "base64_Encode [a] =
     (let val = unat a * 65536 in
      [encodeStd ! (val div 262144 mod 64), encodeStd ! (val div 4096 mod 64),
       CHR ''='', CHR ''=''])"
| "base64_Encode [] = []"

definition decodeMap :: "char \<Rightarrow> nat option" where
  "decodeMap c =
     (let b = of_char c :: nat in
      if 0x41 \<le> b \<and> b \<le> 0x5A then Some (b - 0x41)
      else if 0x61 \<le> b \<and> b \<le> 0x7A then Some (b - 0x61 + 26)
      else if 0x30 \<le> b \<and> b \<le> 0x39 then Some (b - 0x30 + 52)
      else if b = 0x2B then Some 62
      else if b = 0x2F then Some 63
      else None)"

definition quantum :: "nat \<Rightarrow> nat \<Rightarrow> nat \<Rightarrow> nat \<Rightarrow> nat" where
  "quantum d0 d1 d2 d3 = d0 * 262144 + d1 * 4096 + d2 * 64 + d3"

fun base64_Decode :: "string \<Rightarrow> byte list option" where
  "base64_Decode [] = Some []"
| "base64_Decode [c0, c1, c2, c3] =
     (case (decodeMap c0, decodeMap c1) of
        (Some d0, Some d1) \<Rightarrow>
          if c2 = CHR ''='' \<and> c3 = CHR ''='' then
            Some [of_nat (quantum d0 d1 0 0 div 65536)]
          else
            (case decodeMap c2 of
               None \<Rightarrow> None
             | Some d2 \<Rightarrow>
                 if c3 = CHR ''='' then
                   Some [of_nat (quantum d0 d1 d2 0 div 65536),
                         of_nat (quantum d0 d1 d2 0 div 256)]
                 else
                   (case decodeMap c3 of
                      None \<Rightarrow> None
                    | Some d3 \<Rightarrow>
                        Some [of_nat (quantum d0 d1 d2 d3 div 65536),
                              of_nat (quantum d0 d1 d2 d3 div 256),
                              of_nat (quantum d0 d1 d2 d3)]))
      | _ \<Rightarrow> None)"
| "base64_Decode (c0 # c1 # c2 # c3 # src) =
     (case (decodeMap c0, decodeMap c1, decodeMap c2, decodeMap c3) of
        (Some d0, Some d1, Some d2, Some d3) \<Rightarrow>
          (case base64_Decode src of
             None \<Rightarrow> None
           | Some dst \<Rightarrow>
               Some (of_nat (quantum d0 d1 d2 d3 div 65536) #
                     of_nat (quantum d0 d1 d2 d3 div 256) #
                     of_nat (quantum d0 d1 d2 d3) # dst))
      | _ \<Rightarrow> None)"
| "base64_Decode _ = None"

subsection \<open>Integers (strconv)\<close>

fun format_uint :: "nat \<Rightarrow> string" where
  "format_uint n =
     (if n < 10 then [char_of (0x30 + n)]
      else format_uint (n div 10) @ [char_of (0x30 + n mod 10)])"

definition FormatInt :: "int \<Rightarrow> string" where
  "FormatInt i = (if i < 0 then CHR ''-'' # format_uint (nat (- i)) else format_uint (nat i))"

definition is_digit :: "char \<Rightarrow> bool" where
  "is_digit c = (0x30 \<le> (of_char c :: nat) \<and> (of_char c :: nat) \<le> 0x39)"

fun parse_uint :: "nat \<Rightarrow> string \<Rightarrow> nat option" where
  "parse_uint n [] = Some n"
| "parse_uint n (c # s) =
     (if is_digit c then parse_uint (n * 10 + (of_char c - 0x30)) s else None)"

definition ParseInt :: "string \<Rightarrow> int option" where
  "ParseInt s =
     (if s = [] then None
      else
        let neg = (hd s = CHR ''-'');
            s' = (if hd s = CHR ''+'' \<or> hd s = CHR ''-'' then tl s else s)
        in
        if s' = [] then None
        else
          case parse_uint 0 s' of
            None \<Rightarrow> None
          | Some un \<Rightarrow>
              if \<not> neg \<and> int un \<ge> 2 ^ 63 then None
              else if neg \<and> int un > 2 ^ 63 then None
              else Some (if neg then - int un else int un))"

subsection \<open>The text of a document (encoding/json, Marshal)\<close>

definition encodeByteSlice :: "byte list option \<Rightarrow> string" where
  "encodeByteSlice v =
     (case v of
        None \<Rightarrow> ''null''
      | Some s \<Rightarrow> CHR 0x22 # base64_Encode s @ [CHR 0x22])"

definition boolEncoder :: "bool \<Rightarrow> string" where
  "boolEncoder b = (if b then ''true'' else ''false'')"

definition encode_User :: "User \<Rightarrow> string" where
  "encode_User u =
     ''{\"email\":'' @ appendString (Email u) @
     '',\"id\":'' @ FormatInt (ID u) @
     '',\"password\":'' @ encodeByteSlice (Password u) @
     '',\"refreshToken\":'' @ appendString (RefreshToken u) @
     '',\"is_chirpy_red\":'' @ boolEncoder (IsChirpyRed u) @
     ''}''"

text \<open>
  The map encoder turns every key into its decimal text, sorts the entries by that text
  (as strings, so that 10 comes before 2) and writes them separated by commas.
\<close>

definition sorted_keys :: "(int, User) fmap \<Rightarrow> int list" where
  "sorted_keys m = sort_key FormatInt (sorted_list_of_fset (fmdom m))"

definition encode_entry :: "(int, User) fmap \<Rightarrow> int \<Rightarrow> string" where
  "encode_entry m k =
     appendString (FormatInt k) @ '':'' @
     encode_User (case fmlookup m k of Some u \<Rightarrow> u | None \<Rightarrow> User_zero)"

fun encode_entries :: "(int, User) fmap \<Rightarrow> nat \<Rightarrow> int list \<Rightarrow> string" where
  "encode_entries m i [] = []"
| "encode_entries m i (k # ks) =
     (if i > 0 then '','' else []) @ encode_entry m k @ encode_entries m (Suc i) ks"

definition mapEncoder :: "gomap \<Rightarrow> string" where
  "mapEncoder v =
     (case v of
        None \<Rightarrow> ''null''
      | Some m \<Rightarrow> ''{'' @ encode_entries m 0 (sorted_keys m) @ ''}'')"

definition Marshal :: "DBUserStructure \<Rightarrow> string" where
  "Marshal s = ''{\"users\":'' @ mapEncoder (Users s) @ ''}''"

subsection \<open>Reading the text back (encoding/json, Unmarshal)\<close>

definition expect :: "string \<Rightarrow> string \<Rightarrow> string option" where
  "expect lit s = (if take (length lit) s = lit then Some (drop (length lit) s) else None)"

definition decode_string :: "string \<Rightarrow> (string \<times> string) option" where
  "decode_string s =
     do {
       s1 \<leftarrow> expect [CHR 0x22] s;
       (body, rest) \<leftarrow> scan_string s1;
       t \<leftarrow> unquoteBytes (CHR 0x22 # body @ [CHR 0x22]);
       Some (t, rest)
     }"

definition is_numchar :: "char \<Rightarrow> bool" where
  "is_numchar c = (is_digit c \<or> c \<in> {CHR ''.'', CHR ''e'', CHR ''E'', CHR ''+'', CHR ''-''})"

text \<open>The integers among the JSON numbers: an optional minus, then 0 or digits that do not start with 0.\<close>

definition json_integer :: "string \<Rightarrow> bool" where
  "json_integer lit =
     (let ds = (if lit \<noteq> [] \<and> hd lit = CHR ''-'' then tl lit else lit) in
      ds \<noteq> [] \<and> list_all is_digit ds \<and> (hd ds = CHR ''0'' \<longrightarrow> length ds = 1))"

definition decode_int :: "string \<Rightarrow> (int \<times> string) option" where
  "decode_int s =
     (let lit = takeWhile is_numchar s; rest = dropWhile is_numchar s in
      if json_integer lit then map_option (\<lambda>i. (i, rest)) (ParseInt lit) else None)"

definition decode_bytes :: "string \<Rightarrow> (byte list option \<times> string) option" where
  "decode_bytes s =
     (case expect ''null'' s of
        Some rest \<Rightarrow> Some (None, rest)
      | None \<Rightarrow>
          do {
            (t, rest) \<leftarrow> decode_string s;
            b \<leftarrow> base64_Decode t;
            Some (Some b, rest)
          })"

definition decode_bool :: "string \<Rightarrow> (bool \<times> string) option" where
  "decode_bool s =
     (case expect ''true'' s of
        Some rest \<Rightarrow> Some (True, rest)
      | None \<Rightarrow> map_option (Pair False) (expect ''false'' s))"

definition decode_User :: "string \<Rightarrow> (User \<times> string) option" where
  "decode_User s =
     do {
       s1 \<leftarrow> expect ''{\"email\":'' s;
       (email, s2) \<leftarrow> decode_string s1;
       s3 \<leftarrow> expect '',\"id\":'' s2;
       (i, s4) \<leftarrow> decode_int s3;
       s5 \<leftarrow> expect '',\"password\":'' s4;
       (password, s6) \<leftarrow> decode_bytes s5;
       s7 \<leftarrow> expect '',\"refreshToken\":'' s6;
       (token, s8) \<leftarrow> decode_string s7;
       s9 \<leftarrow> expect '',\"is_chirpy_red\":'' s8;
       (red, s10) \<leftarrow> decode_bool s9;
       s11 \<leftarrow> expect ''}'' s10;
       Some (\<lparr>Email = email, ID = i, Password = password, RefreshToken = token,
              IsChirpyRed = red\<rparr>, s11)
     }"

text \<open>
  The entries of the map, one per round; \<open>fuel\<close> bounds the number of rounds and is the
  length of the text, which no sequence of entries exceeds.
\<close>

fun decode_entries :: "nat \<Rightarrow> (int, User) fmap \<Rightarrow> string \<Rightarrow> ((int, User) fmap \<times> string) option" where
  "decode_entries 0 m s = None"
| "decode_entries (Suc fuel) m s =
     do {
       (key, s1) \<leftarrow> decode_string s;
       s2 \<leftarrow> expect '':'' s1;
       (u, s3) \<leftarrow> decode_User s2;
       k \<leftarrow> ParseInt key;
       (case s3 of
          c # s4 \<Rightarrow>
            if c = CHR '','' then decode_entries fuel (fmupd k u m) s4
            else if c = CHR ''}'' then Some (fmupd k u m, s4)
            else None
        | [] \<Rightarrow> None)
     }"

definition decode_map :: "string \<Rightarrow> (gomap \<times> string) option" where
  "decode_map s =
     (case expect ''null'' s of
        Some rest \<Rightarrow> Some (None, rest)
      | None \<Rightarrow>
          (case expect ''{}'' s of
             Some rest \<Rightarrow> Some (Some fmempty, rest)
           | None \<Rightarrow>
               do {
                 s1 \<leftarrow> expect ''{'' s;
                 (m, rest) \<leftarrow> decode_entries (length s) fmempty s1;
                 Some (Some m, rest)
               }))"

definition Unmarshal :: "string \<Rightarrow> error + DBUserStructure" where
  "Unmarshal data =
     (case do {
             s1 \<leftarrow> expect ''{\"users\":'' data;
             (users, s2) \<leftarrow> decode_map s1;
             s3 \<leftarrow> expect ''}'' s2;
             if s3 = [] then Some \<lparr>Users = users\<rparr> else None
           } of
        None \<Rightarrow> Inl ErrSyntax
      | Some database \<Rightarrow> Inr database)"

declare format_uint.simps [simp del]

subsection \<open>Documents that the text gives back\<close>

text \<open>
  The integers of Go are 64-bit integers; the model's \<^typ>\<open>int\<close> is unbounded, so the range
  is a condition here. A document is valid when the strings of its records are valid UTF-8.
\<close>

definition int64 :: "int \<Rightarrow> bool" where
  "int64 i = (- (2 ^ 63) \<le> i \<and> i < 2 ^ 63)"

definition int64_document :: "DBUserStructure \<Rightarrow> bool" where
  "int64_document s =
     (case Users s of
        None \<Rightarrow> True
      | Some m \<Rightarrow> fmpred (\<lambda>k u. int64 k \<and> int64 (ID u)) m)"

definition valid_User :: "User \<Rightarrow> bool" where
  "valid_User u = (ValidString (Email u) \<and> ValidString (RefreshToken u))"

definition valid_document :: "DBUserStructure \<Rightarrow> bool" where
  "valid_document s =
     (case Users s of
        None \<Rightarrow> True
      | Some m \<Rightarrow> fmpred (\<lambda>k u. valid_User u) m)"

subsection \<open>Auxiliary notions for the proofs\<close>

definition prepend :: "string \<Rightarrow> (string \<times> string) option \<Rightarrow> (string \<times> string) option" where
  "prepend chunk = map_option (\<lambda>(body, rest). (chunk @ body, rest))"

definition plain_ascii :: "char \<Rightarrow> bool" where
  "plain_ascii c =
     (0x20 \<le> (of_char c :: nat) \<and> (of_char c :: nat) < 0x80 \<and>
      (of_char c :: nat) \<noteq> 0x22 \<and> (of_char c :: nat) \<noteq> 0x5C)"


section \<open>Properties of the JSON text\<close>

subsection \<open>UTF-8: one rune\<close>

lemma list4_cases:
  obtains "p = []" | c0 where "p = [c0]" | c0 c1 where "p = [c0, c1]"
  | c0 c1 c2 where "p = [c0, c1, c2]" | c0 c1 c2 c3 rest where "p = c0 # c1 # c2 # c3 # rest"
proof (cases p)
  case Nil then show ?thesis using that by blast
next
  case p1: (Cons c0 p1)
  show ?thesis
  proof (cases p1)
    case Nil then show ?thesis using that p1 by blast
  next
    case p2: (Cons c1 p2)
    show ?thesis
    proof (cases p2)
      case Nil then show ?thesis using that p1 p2 by blast
    next
      case p3: (Cons c2 p3)
      show ?thesis
      proof (cases p3)
        case Nil then show ?thesis using that p1 p2 p3 by blast
      next
        case (Cons c3 rest) then show ?thesis using that p1 p2 p3 by blast
      qed
    qed
  qed
qed

lemma DecodeRune_size_le: "snd (DecodeRune p) \<le> length p"
  by (cases p rule: list4_cases) (simp_all add: DecodeRune_def Let_def first_size_def)

lemma of_char_less_256: "(of_char c :: nat) < 256"
  by (metis of_char_mod_256 mod_less_divisor zero_less_numeral)

lemma mod_window:
  fixes x n q :: nat
  assumes "n * q \<le> x" and "x < n * q + n"
  shows "x mod n = x - n * q" and "x div n = q"
proof -
  define k where "k = x - n * q"
  have x: "x = n * q + k" and k: "k < n"
    using assms by (simp_all add: k_def)
  have "0 < n" using k by simp
  show "x mod n = x - n * q"
    unfolding x using k by simp
  show "x div n = q"
    unfolding x using k \<open>0 < n\<close> by simp
qed

lemma m32: "0xC2 \<le> p0 \<Longrightarrow> p0 < 0xE0 \<Longrightarrow> (p0::nat) mod 32 = p0 - 192"
  using mod_window(1) [of 32 6 p0] by simp

lemma m64: "0x80 \<le> b1 \<Longrightarrow> b1 \<le> 0xBF \<Longrightarrow> (b1::nat) mod 64 = b1 - 128"
  using mod_window(1) [of 64 2 b1] by simp

lemma digit:
  fixes x n c :: nat
  assumes "c < n"
  shows "(x * n + c) div n = x" and "(x * n + c) mod n = c"
  using assms by simp_all

lemma pack3:
  fixes a b c :: nat
  assumes "b < 64" and "c < 64"
  shows "(a * 4096 + b * 64 + c) div 4096 = a"
    and "(a * 4096 + b * 64 + c) div 64 mod 64 = b"
    and "(a * 4096 + b * 64 + c) mod 64 = c"
proof -
  let ?r = "a * 4096 + b * 64 + c"
  have r: "?r = (a * 64 + b) * 64 + c"
    by simp
  have d: "?r div 64 = a * 64 + b"
    by (simp only: r digit(1) [OF assms(2)])
  show "?r div 64 mod 64 = b"
    by (simp only: d digit(2) [OF assms(1)])
  show "?r mod 64 = c"
    by (simp only: r digit(2) [OF assms(2)])
  have "?r div 4096 = ?r div 64 div 64"
    by (simp add: div_mult2_eq [symmetric])
  then show "?r div 4096 = a"
    by (simp only: d digit(1) [OF assms(1)])
qed

lemma pack4:
  fixes a b c d :: nat
  assumes "b < 64" and "c < 64" and "d < 64"
  shows "(a * 262144 + b * 4096 + c * 64 + d) div 262144 = a"
    and "(a * 262144 + b * 4096 + c * 64 + d) div 4096 mod 64 = b"
    and "(a * 262144 + b * 4096 + c * 64 + d) div 64 mod 64 = c"
    and "(a * 262144 + b * 4096 + c * 64 + d) mod 64 = d"
proof -
  let ?r = "a * 262144 + b * 4096 + c * 64 + d"
  have r: "?r = (a * 64 + b) * 4096 + c * 64 + d"
    by simp
  show "?r div 64 mod 64 = c"
    by (simp only: r pack3(2) [OF assms(2,3)])
  show "?r mod 64 = d"
    by (simp only: r pack3(3) [OF assms(2,3)])
  have d1: "?r div 4096 = a * 64 + b"
    by (simp only: r pack3(1) [OF assms(2,3)])
  show "?r div 4096 mod 64 = b"
    by (simp only: d1 digit(2) [OF assms(1)])
  have "?r div 262144 = ?r div 4096 div 64"
    by (simp add: div_mult2_eq [symmetric])
  then show "?r div 262144 = a"
    by (simp only: d1 digit(1) [OF assms(1)])
qed

lemma DecodeRune_ascii:
  "(of_char c0 :: nat) < 0x80 \<Longrightarrow> DecodeRune (c0 # q) = (of_char c0, 1)"
  by (simp add: DecodeRune_def first_size_def)

lemma DecodeRune_bad:
  assumes "0x80 \<le> (of_char c0 :: nat)"
    and "(of_char c0 :: nat) < 0xC2 \<or> 0xF5 \<le> (of_char c0 :: nat)"
  shows "DecodeRune (c0 # q) = (RuneError, 1)"
  using assms by (auto simp: DecodeRune_def first_size_def)

lemma DecodeRune_two:
  assumes "0xC2 \<le> (of_char c0 :: nat)" and "(of_char c0 :: nat) < 0xE0"
  shows "DecodeRune [c0] = (RuneError, 1)"
    and "DecodeRune (c0 # c1 # q) =
      (if (of_char c1 :: nat) < 0x80 \<or> 0xBF < (of_char c1 :: nat) then (RuneError, 1)
       else ((of_char c0 mod 32) * 64 + of_char c1 mod 64, 2))"
  using assms by (simp_all add: DecodeRune_def first_size_def accept_lo_def accept_hi_def)

lemma DecodeRune_three:
  assumes "0xE0 \<le> (of_char c0 :: nat)" and "(of_char c0 :: nat) < 0xF0"
  shows "DecodeRune [c0] = (RuneError, 1)"
    and "DecodeRune [c0, c1] = (RuneError, 1)"
    and "DecodeRune (c0 # c1 # c2 # q) =
      (if (of_char c1 :: nat) < accept_lo (of_char c0) \<or> accept_hi (of_char c0) < (of_char c1 :: nat)
       then (RuneError, 1)
       else if (of_char c2 :: nat) < 0x80 \<or> 0xBF < (of_char c2 :: nat) then (RuneError, 1)
       else ((of_char c0 mod 16) * 4096 + (of_char c1 mod 64) * 64 + of_char c2 mod 64, 3))"
  using assms by (simp_all add: DecodeRune_def first_size_def)

lemma DecodeRune_four:
  assumes "0xF0 \<le> (of_char c0 :: nat)" and "(of_char c0 :: nat) < 0xF5"
  shows "DecodeRune [c0] = (RuneError, 1)"
    and "DecodeRune [c0, c1] = (RuneError, 1)"
    and "DecodeRune [c0, c1, c2] = (RuneError, 1)"
    and "DecodeRune (c0 # c1 # c2 # c3 # q) =
      (if (of_char c1 :: nat) < accept_lo (of_char c0) \<or> accept_hi (of_char c0) < (of_char c1 :: nat)
       then (RuneError, 1)
       else if (of_char c2 :: nat) < 0x80 \<or> 0xBF < (of_char c2 :: nat) then (RuneError, 1)
       else if (of_char c3 :: nat) < 0x80 \<or> 0xBF < (of_char c3 :: nat) then (RuneError, 1)
       else ((of_char c0 mod 8) * 262144 + (of_char c1 mod 64) * 4096 + (of_char c2 mod 64) * 64
             + of_char c3 mod 64, 4))"
  using assms by (simp_all add: DecodeRune_def first_size_def)

lemma enc2:
  fixes a b :: nat
  assumes "2 \<le> a" and "a < 32" and "b < 64"
  shows "EncodeRune (a * 64 + b) = [char_of (192 + a), char_of (128 + b)]"
proof -
  have "\<not> a * 64 + b \<le> 0x7F" and "a * 64 + b \<le> 0x7FF"
    using assms by simp_all
  then show ?thesis
    by (simp only: EncodeRune_def if_True if_False digit [OF assms(3)])
qed

lemma enc3:
  fixes a b c :: nat
  assumes "a < 16" and "b < 64" and "c < 64"
    and low: "a = 0 \<longrightarrow> 32 \<le> b" and sur: "a = 13 \<longrightarrow> b < 32"
  shows "EncodeRune (a * 4096 + b * 64 + c) =
           [char_of (224 + a), char_of (128 + b), char_of (128 + c)]"
proof -
  let ?r = "a * 4096 + b * 64 + c"
  have 1: "\<not> ?r \<le> 0x7F" and 2: "\<not> ?r \<le> 0x7FF"
    using low by (cases "a = 0"; simp)+
  have 3: "\<not> (?r > 0x10FFFF \<or> (0xD800 \<le> ?r \<and> ?r \<le> 0xDFFF))"
  proof -
    consider "a < 13" | "a = 13" | "13 < a" by linarith
    then show ?thesis
      using assms(1-3) sur by cases simp_all
  qed
  have 4: "?r \<le> 0xFFFF"
    using assms(1-3) by simp
  show ?thesis
    by (simp only: EncodeRune_def 1 2 3 4 if_True if_False pack3 [OF assms(2,3)])
qed

lemma enc4:
  fixes a b c d :: nat
  assumes "a < 5" and "b < 64" and "c < 64" and "d < 64"
    and low: "a = 0 \<longrightarrow> 16 \<le> b" and high: "a = 4 \<longrightarrow> b < 16"
  shows "EncodeRune (a * 262144 + b * 4096 + c * 64 + d) =
           [char_of (240 + a), char_of (128 + b), char_of (128 + c), char_of (128 + d)]"
proof -
  let ?r = "a * 262144 + b * 4096 + c * 64 + d"
  have 1: "\<not> ?r \<le> 0x7F" and 2: "\<not> ?r \<le> 0x7FF" and 4: "\<not> ?r \<le> 0xFFFF"
    using low by (cases "a = 0"; simp)+
  have 3: "\<not> (?r > 0x10FFFF \<or> (0xD800 \<le> ?r \<and> ?r \<le> 0xDFFF))"
  proof -
    consider "a < 4" | "a = 4" using assms(1) by linarith
    then show ?thesis
      using assms(2-4) high 4 by cases simp_all
  qed
  show ?thesis
    by (simp only: EncodeRune_def 1 2 3 4 if_True if_False pack4 [OF assms(2-4)])
qed

lemma valid_multibyte_cases:
  assumes high: "0x80 \<le> (of_char c0 :: nat)" and valid: "valid_rune (DecodeRune (c0 # q))"
  obtains
    (two) c1 q' where "q = c1 # q'"
      "0xC2 \<le> (of_char c0 :: nat)" "(of_char c0 :: nat) < 0xE0"
      "0x80 \<le> (of_char c1 :: nat)" "(of_char c1 :: nat) \<le> 0xBF"
  | (three) c1 c2 q' where "q = c1 # c2 # q'"
      "0xE0 \<le> (of_char c0 :: nat)" "(of_char c0 :: nat) < 0xF0"
      "accept_lo (of_char c0) \<le> (of_char c1 :: nat)" "(of_char c1 :: nat) \<le> accept_hi (of_char c0)"
      "0x80 \<le> (of_char c2 :: nat)" "(of_char c2 :: nat) \<le> 0xBF"
  | (four) c1 c2 c3 q' where "q = c1 # c2 # c3 # q'"
      "0xF0 \<le> (of_char c0 :: nat)" "(of_char c0 :: nat) < 0xF5"
      "accept_lo (of_char c0) \<le> (of_char c1 :: nat)" "(of_char c1 :: nat) \<le> accept_hi (of_char c0)"
      "0x80 \<le> (of_char c2 :: nat)" "(of_char c2 :: nat) \<le> 0xBF"
      "0x80 \<le> (of_char c3 :: nat)" "(of_char c3 :: nat) \<le> 0xBF"
proof -
  let ?p0 = "of_char c0 :: nat"
  have not_bad: "\<not> (?p0 < 0xC2 \<or> 0xF5 \<le> ?p0)"
    using DecodeRune_bad [OF high, of q] valid by (auto simp: valid_rune_def)
  consider (s2) "0xC2 \<le> ?p0" "?p0 < 0xE0" | (s3) "0xE0 \<le> ?p0" "?p0 < 0xF0"
    | (s4) "0xF0 \<le> ?p0" "?p0 < 0xF5"
    using not_bad by linarith
  then show thesis
  proof cases
    case s2
    show thesis
    proof (cases q)
      case Nil
      then show thesis
        using valid DecodeRune_two(1) [OF s2] by (simp add: valid_rune_def)
    next
      case (Cons c1 q')
      then show thesis
        using valid DecodeRune_two(2) [OF s2, of c1 q'] two [of c1 q'] s2
        by (auto simp: valid_rune_def split: if_splits)
    qed
  next
    case s3
    show thesis
    proof (cases q rule: list4_cases)
      case 1
      then show thesis
        using valid DecodeRune_three(1) [OF s3] by (simp add: valid_rune_def)
    next
      case (2 c1)
      then show thesis
        using valid DecodeRune_three(2) [OF s3] by (simp add: valid_rune_def)
    next
      case (3 c1 c2)
      then show thesis
        using valid DecodeRune_three(3) [OF s3, of c1 c2 "[]"] three [of c1 c2 "[]"] s3
        by (auto simp: valid_rune_def split: if_splits)
    next
      case (4 c1 c2 c3)
      then show thesis
        using valid DecodeRune_three(3) [OF s3, of c1 c2 "[c3]"] three [of c1 c2 "[c3]"] s3
        by (auto simp: valid_rune_def split: if_splits)
    next
      case (5 c1 c2 c3 c4 rest)
      then show thesis
        using valid DecodeRune_three(3) [OF s3, of c1 c2 "c3 # c4 # rest"]
          three [of c1 c2 "c3 # c4 # rest"] s3
        by (auto simp: valid_rune_def split: if_splits)
    qed
  next
    case s4
    show thesis
    proof (cases q rule: list4_cases)
      case 1
      then show thesis
        using valid DecodeRune_four(1) [OF s4] by (simp add: valid_rune_def)
    next
      case (2 c1)
      then show thesis
        using valid DecodeRune_four(2) [OF s4] by (simp add: valid_rune_def)
    next
      case (3 c1 c2)
      then show thesis
        using valid DecodeRune_four(3) [OF s4] by (simp add: valid_rune_def)
    next
      case (4 c1 c2 c3)
      then show thesis
        using valid DecodeRune_four(4) [OF s4, of c1 c2 c3 "[]"] four [of c1 c2 c3 "[]"] s4
        by (auto simp: valid_rune_def split: if_splits)
    next
      case (5 c1 c2 c3 c4 rest)
      then show thesis
        using valid DecodeRune_four(4) [OF s4, of c1 c2 c3 "c4 # rest"]
          four [of c1 c2 c3 "c4 # rest"] s4
        by (auto simp: valid_rune_def split: if_splits)
    qed
  qed
qed

lemma accept_bounds: "0x80 \<le> accept_lo p0" "accept_hi p0 \<le> 0xBF"
  by (simp_all add: accept_lo_def accept_hi_def)

lemma valid_multibyte:
  assumes high: "0x80 \<le> (of_char c0 :: nat)" and valid: "valid_rune (DecodeRune (c0 # q))"
  shows "EncodeRune (fst (DecodeRune (c0 # q))) = take (snd (DecodeRune (c0 # q))) (c0 # q)"
    and "DecodeRune (take (snd (DecodeRune (c0 # q))) (c0 # q) @ t) = DecodeRune (c0 # q)"
    and "\<forall>c \<in> set (take (snd (DecodeRune (c0 # q))) (c0 # q)). 0x80 \<le> (of_char c :: nat)"
    and "2 \<le> snd (DecodeRune (c0 # q))"
proof -
  let ?p0 = "of_char c0 :: nat"
  have "EncodeRune (fst (DecodeRune (c0 # q))) = take (snd (DecodeRune (c0 # q))) (c0 # q)
      \<and> DecodeRune (take (snd (DecodeRune (c0 # q))) (c0 # q) @ t) = DecodeRune (c0 # q)
      \<and> (\<forall>c \<in> set (take (snd (DecodeRune (c0 # q))) (c0 # q)). 0x80 \<le> (of_char c :: nat))
      \<and> 2 \<le> snd (DecodeRune (c0 # q))"
    using high valid
  proof (cases rule: valid_multibyte_cases)
    case (two c1 q')
    let ?b1 = "of_char c1 :: nat"
    have dec: "DecodeRune (c0 # c1 # r) = ((?p0 mod 32) * 64 + ?b1 mod 64, 2)" for r
      using DecodeRune_two(2) [OF two(2,3), of c1 r] two(4,5) by simp
    have a: "?p0 mod 32 = ?p0 - 192"
      using mod_window(1) [of 32 6 ?p0] two(2,3) by simp
    have b: "?b1 mod 64 = ?b1 - 128"
      using mod_window(1) [of 64 2 ?b1] two(4,5) by simp
    have "EncodeRune ((?p0 - 192) * 64 + (?b1 - 128)) =
        [char_of (192 + (?p0 - 192)), char_of (128 + (?b1 - 128))]"
      using two(2-5) by (intro enc2) simp_all
    then have enc: "EncodeRune ((?p0 mod 32) * 64 + ?b1 mod 64) = [c0, c1]"
      unfolding a b using two(2-5) by simp
    show ?thesis
      unfolding two(1) dec using enc two(4) high by (simp add: dec)
  next
    case (three c1 c2 q')
    let ?b1 = "of_char c1 :: nat" and ?b2 = "of_char c2 :: nat"
    have b1: "0x80 \<le> ?b1" "?b1 \<le> 0xBF"
      using three(4,5) accept_bounds [of ?p0] by simp_all
    have dec: "DecodeRune (c0 # c1 # c2 # r) =
        ((?p0 mod 16) * 4096 + (?b1 mod 64) * 64 + ?b2 mod 64, 3)" for r
      using DecodeRune_three(3) [OF three(2,3), of c1 c2 r] three(4-7) by simp
    have a: "?p0 mod 16 = ?p0 - 224"
      using mod_window(1) [of 16 14 ?p0] three(2,3) by simp
    have b: "?b1 mod 64 = ?b1 - 128"
      using mod_window(1) [of 64 2 ?b1] b1 by simp
    have c: "?b2 mod 64 = ?b2 - 128"
      using mod_window(1) [of 64 2 ?b2] three(6,7) by simp
    have low: "?p0 - 224 = 0 \<longrightarrow> 32 \<le> ?b1 - 128"
      using three(2,4) by (simp add: accept_lo_def split: if_splits)
    have sur: "?p0 - 224 = 13 \<longrightarrow> ?b1 - 128 < 32"
      using three(2,5) b1 by (simp add: accept_hi_def split: if_splits)
    have "EncodeRune ((?p0 - 224) * 4096 + (?b1 - 128) * 64 + (?b2 - 128)) =
        [char_of (224 + (?p0 - 224)), char_of (128 + (?b1 - 128)), char_of (128 + (?b2 - 128))]"
      using three(2,3,6,7) b1 low sur by (intro enc3) simp_all
    then have enc: "EncodeRune ((?p0 mod 16) * 4096 + (?b1 mod 64) * 64 + ?b2 mod 64) = [c0, c1, c2]"
      unfolding a b c using three(2,3,6,7) b1 by simp
    show ?thesis
      unfolding three(1) dec using enc three(6) b1 high by (simp add: dec)
  next
    case (four c1 c2 c3 q')
    let ?b1 = "of_char c1 :: nat" and ?b2 = "of_char c2 :: nat" and ?b3 = "of_char c3 :: nat"
    have b1: "0x80 \<le> ?b1" "?b1 \<le> 0xBF"
      using four(4,5) accept_bounds [of ?p0] by simp_all
    have dec: "DecodeRune (c0 # c1 # c2 # c3 # r) =
        ((?p0 mod 8) * 262144 + (?b1 mod 64) * 4096 + (?b2 mod 64) * 64 + ?b3 mod 64, 4)" for r
      using DecodeRune_four(4) [OF four(2,3), of c1 c2 c3 r] four(4-9) by simp
    have a: "?p0 mod 8 = ?p0 - 240"
      using mod_window(1) [of 8 30 ?p0] four(2,3) by simp
    have b: "?b1 mod 64 = ?b1 - 128"
      using mod_window(1) [of 64 2 ?b1] b1 by simp
    have c: "?b2 mod 64 = ?b2 - 128"
      using mod_window(1) [of 64 2 ?b2] four(6,7) by simp
    have d: "?b3 mod 64 = ?b3 - 128"
      using mod_window(1) [of 64 2 ?b3] four(8,9) by simp
    have low: "?p0 - 240 = 0 \<longrightarrow> 16 \<le> ?b1 - 128"
      using four(2,4) by (simp add: accept_lo_def split: if_splits)
    have top: "?p0 - 240 = 4 \<longrightarrow> ?b1 - 128 < 16"
      using four(2,5) b1 by (simp add: accept_hi_def split: if_splits)
    have "EncodeRune ((?p0 - 240) * 262144 + (?b1 - 128) * 4096 + (?b2 - 128) * 64 + (?b3 - 128)) =
        [char_of (240 + (?p0 - 240)), char_of (128 + (?b1 - 128)), char_of (128 + (?b2 - 128)),
         char_of (128 + (?b3 - 128))]"
      using four(2,3,6-9) b1 low top by (intro enc4) simp_all
    then have enc: "EncodeRune ((?p0 mod 8) * 262144 + (?b1 mod 64) * 4096 + (?b2 mod 64) * 64
        + ?b3 mod 64) = [c0, c1, c2, c3]"
      unfolding a b c d using four(2,3,6-9) b1 by simp
    show ?thesis
      unfolding four(1) dec using enc four(6,8) b1 high by (simp add: dec)
  qed
  then show "EncodeRune (fst (DecodeRune (c0 # q))) = take (snd (DecodeRune (c0 # q))) (c0 # q)"
    and "DecodeRune (take (snd (DecodeRune (c0 # q))) (c0 # q) @ t) = DecodeRune (c0 # q)"
    and "\<forall>c \<in> set (take (snd (DecodeRune (c0 # q))) (c0 # q)). 0x80 \<le> (of_char c :: nat)"
    and "2 \<le> snd (DecodeRune (c0 # q))"
    by blast+
qed

subsection \<open>Unfolding the recursions\<close>

lemma ValidString_Nil: "ValidString []"
  by (subst ValidString.simps) simp

lemma ValidString_Cons:
  "s \<noteq> [] \<Longrightarrow>
     ValidString s \<longleftrightarrow> valid_rune (DecodeRune s) \<and> ValidString (drop (snd (DecodeRune s)) s)"
  by (subst ValidString.simps) simp

lemma appendString_from_Nil: "appendString_from [] = []"
  by (subst appendString_from.simps) simp

lemma appendString_from_Cons:
  "src \<noteq> [] \<Longrightarrow>
     appendString_from src =
       fst (appendString_step src) @ appendString_from (drop (snd (appendString_step src)) src)"
  by (subst appendString_from.simps) simp

lemma unquote_from_Nil: "unquote_from [] = Some []"
  by (subst unquote_from.simps) simp

lemma unquote_from_Cons:
  "s \<noteq> [] \<Longrightarrow> unquote_step s = Some (out, n) \<Longrightarrow>
     unquote_from s = map_option ((@) out) (unquote_from (drop n s))"
  by (subst unquote_from.simps) (simp split: option.splits)

lemma unquote_from_None:
  "s \<noteq> [] \<Longrightarrow> unquote_step s = None \<Longrightarrow> unquote_from s = None"
  by (subst unquote_from.simps) simp

lemma coerce_Nil: "coerce [] = []"
  by (subst coerce.simps) simp

lemma coerce_Cons:
  "s \<noteq> [] \<Longrightarrow>
     coerce s =
       (if valid_rune (DecodeRune s) then take (snd (DecodeRune s)) s else EncodeRune RuneError)
       @ coerce (drop (snd (DecodeRune s)) s)"
  by (subst coerce.simps) simp

lemma coerce_ValidString: "ValidString s \<Longrightarrow> coerce s = s"
proof (induction s rule: coerce.induct)
  case (1 s)
  show ?case
  proof (cases "s = []")
    case True
    then show ?thesis by (simp add: coerce_Nil)
  next
    case False
    then show ?thesis
      using "1.prems" "1.IH" [OF False] by (simp add: coerce_Cons ValidString_Cons)
  qed
qed

lemma DecodeRune_take4: "DecodeRune (take 4 p) = DecodeRune p"
proof (cases p)
  case Nil
  then show ?thesis by simp
next
  case (Cons c0 q)
  let ?p0 = "of_char c0 :: nat"
  consider (ascii) "?p0 < 0x80" | (bad) "0x80 \<le> ?p0" "?p0 < 0xC2 \<or> 0xF5 \<le> ?p0"
    | (s2) "0xC2 \<le> ?p0" "?p0 < 0xE0" | (s3) "0xE0 \<le> ?p0" "?p0 < 0xF0"
    | (s4) "0xF0 \<le> ?p0" "?p0 < 0xF5"
    by linarith
  then show ?thesis
  proof cases
    case ascii
    then show ?thesis
      unfolding Cons by (simp add: DecodeRune_ascii)
  next
    case bad
    then show ?thesis
      unfolding Cons by (simp add: DecodeRune_bad)
  next
    case s2
    show ?thesis
      unfolding Cons
      by (cases q rule: list4_cases) (simp_all add: DecodeRune_two [OF s2])
  next
    case s3
    show ?thesis
      unfolding Cons
      by (cases q rule: list4_cases) (simp_all add: DecodeRune_three [OF s3])
  next
    case s4
    show ?thesis
      unfolding Cons
      by (cases q rule: list4_cases) (simp_all add: DecodeRune_four [OF s4])
  qed
qed

lemma hexval_hex_all: "list_all (\<lambda>n. hexval (hex n) = Some n) [0..<16]"
  by code_simp

lemma hexval_hex: "n < 16 \<Longrightarrow> hexval (hex n) = Some n"
  using hexval_hex_all by (simp add: list_all_iff)

lemma getu4_escape:
  assumes "a < 16" and "b < 16" and "c < 16" and "d < 16"
  shows "getu4 (CHR 0x5C # CHR ''u'' # hex a # hex b # hex c # hex d # t) =
           Some (((a * 16 + b) * 16 + c) * 16 + d)"
  using assms by (simp add: getu4_def hexval_hex)

subsection \<open>One round of the string encoder, read back\<close>

lemma char_eq_code: "(of_char c :: nat) = of_char d \<Longrightarrow> c = d"
  by (rule of_char_eqI)

lemma step_safe:
  assumes "(of_char c0 :: nat) < 0x80" and "htmlSafeSet (of_char c0)"
  shows "appendString_step (c0 # q) = ([c0], 1)"
    and "unquote_step (c0 # t) = Some ([c0], 1)"
  using assms by (simp_all add: appendString_step_def unquote_step_def htmlSafeSet_def)

lemma unquote_step_u00:
  assumes "b < 0x80"
  shows "unquote_step (CHR 0x5C # CHR ''u'' # CHR ''0'' # CHR ''0'' # hex (b div 16) # hex (b mod 16) # t)
           = Some ([char_of b], 6)"
proof -
  have "getu4 (CHR 0x5C # CHR ''u'' # hex 0 # hex 0 # hex (b div 16) # hex (b mod 16) # t)
      = Some (((0 * 16 + 0) * 16 + b div 16) * 16 + b mod 16)"
    using assms by (intro getu4_escape) simp_all
  moreover have "hex 0 = CHR ''0''"
    by (simp add: hex_def)
  ultimately have "getu4 (CHR 0x5C # CHR ''u'' # CHR ''0'' # CHR ''0'' # hex (b div 16) # hex (b mod 16) # t)
      = Some b"
    by simp
  then show ?thesis
    using assms by (simp add: unquote_step_def EncodeRune_def)
qed

lemma step_escape:
  assumes "(of_char c0 :: nat) < 0x80" and "\<not> htmlSafeSet (of_char c0)"
  shows "appendString_step (c0 # q) = (escape_byte (of_char c0), 1)"
    and "unquote_step (escape_byte (of_char c0) @ t) = Some ([c0], length (escape_byte (of_char c0)))"
proof -
  let ?b = "of_char c0 :: nat"
  show "appendString_step (c0 # q) = (escape_byte ?b, 1)"
    using assms by (simp add: appendString_step_def)
  consider (quote) "?b = 0x5C \<or> ?b = 0x22" | (b) "?b = 0x08" | (f) "?b = 0x0C" | (n) "?b = 0x0A"
    | (r) "?b = 0x0D" | (t) "?b = 0x09"
    | (u) "?b \<noteq> 0x5C" "?b \<noteq> 0x22" "?b \<noteq> 0x08" "?b \<noteq> 0x0C" "?b \<noteq> 0x0A" "?b \<noteq> 0x0D" "?b \<noteq> 0x09"
    by blast
  then show "unquote_step (escape_byte ?b @ t) = Some ([c0], length (escape_byte ?b))"
  proof cases
    case quote
    then have "c0 = CHR 0x5C \<or> c0 = CHR 0x22"
      using char_eq_code [of c0 "CHR 0x5C"] char_eq_code [of c0 "CHR 0x22"] by auto
    then show ?thesis
      by (auto simp: escape_byte_def unquote_step_def)
  next
    case b
    then have "c0 = CHR 0x08" using char_eq_code [of c0 "CHR 0x08"] by simp
    then show ?thesis by (simp add: escape_byte_def unquote_step_def)
  next
    case f
    then have "c0 = CHR 0x0C" using char_eq_code [of c0 "CHR 0x0C"] by simp
    then show ?thesis by (simp add: escape_byte_def unquote_step_def)
  next
    case n
    then have "c0 = CHR 0x0A" using char_eq_code [of c0 "CHR 0x0A"] by simp
    then show ?thesis by (simp add: escape_byte_def unquote_step_def)
  next
    case r
    then have "c0 = CHR 0x0D" using char_eq_code [of c0 "CHR 0x0D"] by simp
    then show ?thesis by (simp add: escape_byte_def unquote_step_def)
  next
    case t
    then have "c0 = CHR 0x09" using char_eq_code [of c0 "CHR 0x09"] by simp
    then show ?thesis by (simp add: escape_byte_def unquote_step_def)
  next
    case u
    then have "escape_byte ?b =
        [CHR 0x5C, CHR ''u'', CHR ''0'', CHR ''0'', hex (?b div 16), hex (?b mod 16)]"
      by (simp add: escape_byte_def)
    then show ?thesis
      using unquote_step_u00 [OF assms(1), of t] by simp
  qed
qed

lemma step_multi:
  assumes high: "0x80 \<le> (of_char c0 :: nat)" and valid: "valid_rune (DecodeRune (c0 # q))"
  shows "unquote_step (fst (appendString_step (c0 # q)) @ t) =
           Some (take (snd (appendString_step (c0 # q))) (c0 # q),
                 length (fst (appendString_step (c0 # q))))"
proof -
  let ?src = "c0 # q"
  let ?r = "fst (DecodeRune ?src)" and ?n = "snd (DecodeRune ?src)"
  note mb = valid_multibyte [OF high valid]
  have not_error: "\<not> (?r = RuneError \<and> ?n = 1)"
    using valid by (simp add: valid_rune_def)
  have n_le: "?n \<le> length ?src"
    by (rule DecodeRune_size_le)
  show ?thesis
  proof (cases "?r = 0x2028 \<or> ?r = 0x2029")
    case True
    then have step: "appendString_step ?src = (CHR 0x5C # ''u202'' @ [hex (?r mod 16)], ?n)"
      using high not_error
      by (simp add: appendString_step_def DecodeRune_take4 [of ?src, simplified] Let_def)
    have "unquote_step ((CHR 0x5C # ''u202'' @ [hex (?r mod 16)]) @ t) = Some (EncodeRune ?r, 6)"
      using True by (auto simp: unquote_step_def getu4_def hexval_def hex_def)
    then show ?thesis
      unfolding step using mb(1) by simp
  next
    case False
    then have step: "appendString_step ?src = (take ?n ?src, ?n)"
      using high not_error
      by (simp add: appendString_step_def DecodeRune_take4 [of ?src, simplified] Let_def)
    have hd_chunk: "take ?n ?src @ t = c0 # (take (?n - 1) q @ t)"
      using mb(4) by (simp add: take_Cons')
    have "unquote_step (take ?n ?src @ t) =
        Some (EncodeRune (fst (DecodeRune (take ?n ?src @ t))), snd (DecodeRune (take ?n ?src @ t)))"
      unfolding hd_chunk using high by (simp add: unquote_step_def)
    then have "unquote_step (take ?n ?src @ t) = Some (take ?n ?src, ?n)"
      unfolding mb(2) using mb(1) by simp
    then show ?thesis
      unfolding step using n_le by simp
  qed
qed

lemma step_invalid:
  assumes high: "0x80 \<le> (of_char c0 :: nat)" and invalid: "\<not> valid_rune (DecodeRune (c0 # q))"
  shows "unquote_step (fst (appendString_step (c0 # q)) @ t) =
           Some (EncodeRune RuneError, length (fst (appendString_step (c0 # q))))"
proof -
  have "DecodeRune (take 4 (c0 # q)) = (RuneError, 1)"
    using invalid unfolding DecodeRune_take4 by (cases "DecodeRune (c0 # q)") (simp add: valid_rune_def)
  then have "fst (appendString_step (c0 # q)) = CHR 0x5C # ''ufffd''"
    using high by (simp add: appendString_step_def)
  moreover have "unquote_step ((CHR 0x5C # ''ufffd'') @ t) = Some (EncodeRune RuneError, 6)"
    by (simp add: unquote_step_def getu4_def hexval_def RuneError_def)
  ultimately show ?thesis by simp
qed

lemma unquote_step_appendString_step:
  assumes "src \<noteq> []"
  shows "unquote_step (fst (appendString_step src) @ t) =
           Some (if valid_rune (DecodeRune src) then take (snd (DecodeRune src)) src
                 else EncodeRune RuneError,
                 length (fst (appendString_step src)))"
proof -
  obtain c0 q where src: "src = c0 # q"
    using assms(1) by (cases src) auto
  consider (safe) "(of_char c0 :: nat) < 0x80" "htmlSafeSet (of_char c0)"
    | (escape) "(of_char c0 :: nat) < 0x80" "\<not> htmlSafeSet (of_char c0)"
    | (multi) "0x80 \<le> (of_char c0 :: nat)"
    by linarith
  then show ?thesis
  proof cases
    case safe
    then show ?thesis
      unfolding src by (simp add: step_safe DecodeRune_ascii valid_rune_def RuneError_def)
  next
    case escape
    then show ?thesis
      unfolding src by (simp add: step_escape DecodeRune_ascii valid_rune_def RuneError_def)
  next
    case multi
    show ?thesis
    proof (cases "valid_rune (DecodeRune (c0 # q))")
      case True
      have "snd (appendString_step (c0 # q)) = snd (DecodeRune (c0 # q))"
        unfolding appendString_step_def DecodeRune_take4 using multi by (simp add: Let_def)
      then show ?thesis
        unfolding src using True step_multi [OF multi True, of t] by simp
    next
      case False
      then show ?thesis
        unfolding src using step_invalid [OF multi False, of t] by simp
    qed
  qed
qed

subsection \<open>The scanner on an encoded string\<close>

lemma prepend_Some [simp]: "prepend chunk (Some (body, rest)) = Some (chunk @ body, rest)"
  by (simp add: prepend_def)

lemma prepend_prepend: "prepend a (prepend b x) = prepend (a @ b) x"
  by (cases x) (auto simp: prepend_def)

lemma scan_plain:
  "c \<noteq> CHR 0x22 \<Longrightarrow> c \<noteq> CHR 0x5C \<Longrightarrow> scan_string (c # t) = prepend [c] (scan_string t)"
  by (simp add: prepend_def)

lemma scan_escaped: "scan_string (CHR 0x5C # e # t) = prepend [CHR 0x5C, e] (scan_string t)"
  by (simp add: prepend_def)

lemma scan_plain_list:
  "\<forall>c \<in> set xs. c \<noteq> CHR 0x22 \<and> c \<noteq> CHR 0x5C \<Longrightarrow>
     scan_string (xs @ t) = prepend xs (scan_string t)"
proof (induction xs)
  case Nil
  show ?case by (cases "scan_string t") (auto simp: prepend_def)
next
  case (Cons c xs)
  then show ?case
    using scan_plain [of c "xs @ t"] by (simp add: prepend_prepend)
qed

lemma hex_plain_all: "list_all (\<lambda>n. hex n \<noteq> CHR 0x22 \<and> hex n \<noteq> CHR 0x5C) [0..<16]"
  by code_simp

lemma hex_plain: "n < 16 \<Longrightarrow> hex n \<noteq> CHR 0x22 \<and> hex n \<noteq> CHR 0x5C"
  using hex_plain_all by (simp add: list_all_iff)

lemma scan_u_escape:
  assumes "\<forall>c \<in> set ds. c \<noteq> CHR 0x22 \<and> c \<noteq> CHR 0x5C"
  shows "scan_string ((CHR 0x5C # CHR ''u'' # ds) @ t) = prepend (CHR 0x5C # CHR ''u'' # ds) (scan_string t)"
  using scan_escaped [of "CHR ''u''" "ds @ t"] scan_plain_list [OF assms, of t]
  by (simp add: prepend_prepend)

lemma high_plain: "0x80 \<le> (of_char c :: nat) \<Longrightarrow> c \<noteq> CHR 0x22 \<and> c \<noteq> CHR 0x5C"
  by auto

lemma appendString_step_high:
  assumes "0x80 \<le> (of_char (hd src) :: nat)"
  shows "appendString_step src =
     (if fst (DecodeRune src) = RuneError \<and> snd (DecodeRune src) = 1
        then (CHR 0x5C # ''ufffd'', snd (DecodeRune src))
      else if fst (DecodeRune src) = 0x2028 \<or> fst (DecodeRune src) = 0x2029
        then (CHR 0x5C # ''u202'' @ [hex (fst (DecodeRune src) mod 16)], snd (DecodeRune src))
      else (take (snd (DecodeRune src)) src, snd (DecodeRune src)))"
  unfolding appendString_step_def DecodeRune_take4 using assms by (simp add: Let_def)

lemma scan_appendString_step:
  assumes "src \<noteq> []"
  shows "scan_string (fst (appendString_step src) @ t) =
           prepend (fst (appendString_step src)) (scan_string t)"
proof -
  obtain c0 q where src: "src = c0 # q"
    using assms by (cases src) auto
  let ?b = "of_char c0 :: nat"
  consider (safe) "?b < 0x80" "htmlSafeSet ?b" | (escape) "?b < 0x80" "\<not> htmlSafeSet ?b"
    | (multi) "0x80 \<le> ?b"
    by linarith
  then show ?thesis
  proof cases
    case safe
    then have "c0 \<noteq> CHR 0x22 \<and> c0 \<noteq> CHR 0x5C"
      by (auto simp: htmlSafeSet_def)
    then show ?thesis
      unfolding src using safe by (simp add: step_safe prepend_def)
  next
    case escape
    have "scan_string (escape_byte ?b @ t) = prepend (escape_byte ?b) (scan_string t)"
    proof (cases "?b = 0x5C \<or> ?b = 0x22 \<or> ?b = 0x08 \<or> ?b = 0x0C \<or> ?b = 0x0A \<or> ?b = 0x0D \<or> ?b = 0x09")
      case True
      then show ?thesis
        using scan_escaped by (auto simp: escape_byte_def)
    next
      case False
      have "?b div 16 < 16" "?b mod 16 < 16"
        using escape(1) by simp_all
      then have "\<forall>c \<in> set [CHR ''0'', CHR ''0'', hex (?b div 16), hex (?b mod 16)].
          c \<noteq> CHR 0x22 \<and> c \<noteq> CHR 0x5C"
        using hex_plain by simp
      from scan_u_escape [OF this, of t] False show ?thesis
        by (simp add: escape_byte_def)
    qed
    then show ?thesis
      unfolding src using escape by (simp add: step_escape)
  next
    case multi
    let ?r = "fst (DecodeRune src)" and ?n = "snd (DecodeRune src)"
    consider (invalid) "?r = RuneError \<and> ?n = 1"
      | (sep) "\<not> (?r = RuneError \<and> ?n = 1)" "?r = 0x2028 \<or> ?r = 0x2029"
      | (raw) "\<not> (?r = RuneError \<and> ?n = 1)" "\<not> (?r = 0x2028 \<or> ?r = 0x2029)"
      by blast
    then show ?thesis
    proof cases
      case invalid
      then have "fst (appendString_step src) = CHR 0x5C # CHR ''u'' # ''fffd''"
        using multi appendString_step_high [of src] by (simp add: src)
      then show ?thesis
        using scan_u_escape [of "''fffd''" t] by simp
    next
      case sep
      then have step: "fst (appendString_step src) = CHR 0x5C # CHR ''u'' # [CHR ''2'', CHR ''0'', CHR ''2'', hex (?r mod 16)]"
        using multi appendString_step_high [of src] by (simp add: src)
      have "\<forall>c \<in> set [CHR ''2'', CHR ''0'', CHR ''2'', hex (?r mod 16)]. c \<noteq> CHR 0x22 \<and> c \<noteq> CHR 0x5C"
        using hex_plain [of "?r mod 16"] by simp
      from scan_u_escape [OF this, of t] show ?thesis
        unfolding step by simp
    next
      case raw
      then have step: "fst (appendString_step src) = take ?n src"
        using multi appendString_step_high [of src] by (simp add: src)
      have "valid_rune (DecodeRune (c0 # q))"
        using raw(1) by (simp add: valid_rune_def src)
      from valid_multibyte(3) [OF multi this]
      have "\<forall>c \<in> set (take ?n src). c \<noteq> CHR 0x22 \<and> c \<noteq> CHR 0x5C"
        unfolding src using high_plain by blast
      then show ?thesis
        unfolding step by (rule scan_plain_list)
    qed
  qed
qed

lemma appendString_step_size:
  assumes "src \<noteq> []"
  shows "snd (appendString_step src) = snd (DecodeRune src)"
proof -
  obtain c0 q where src: "src = c0 # q"
    using assms by (cases src) auto
  have "snd (appendString_step src) =
      (if (of_char (hd src) :: nat) < 0x80 then 1 else snd (DecodeRune src))"
    unfolding appendString_step_def DecodeRune_take4 by (simp add: Let_def)
  then show ?thesis
    unfolding src by (simp add: DecodeRune_ascii)
qed

lemma appendString_step_chunk:
  assumes "src \<noteq> []"
  shows "fst (appendString_step src) \<noteq> []"
proof -
  have "1 \<le> snd (DecodeRune src)"
    using DecodeRune_size [OF assms] by simp
  then have "take (snd (DecodeRune src)) src \<noteq> []"
    using assms by (cases src) (auto simp: take_Cons')
  then show ?thesis
    unfolding appendString_step_def DecodeRune_take4
    by (simp add: Let_def escape_byte_def)
qed

lemma scan_appendString_from:
  "scan_string (appendString_from src @ CHR 0x22 # rest) = Some (appendString_from src, rest)"
proof (induction src rule: appendString_from.induct)
  case (1 src)
  show ?case
  proof (cases "src = []")
    case True
    then show ?thesis by (simp add: appendString_from_Nil)
  next
    case False
    let ?chunk = "fst (appendString_step src)" and ?n = "snd (appendString_step src)"
    have unfold: "appendString_from src = ?chunk @ appendString_from (drop ?n src)"
      using False by (rule appendString_from_Cons)
    have "scan_string ((?chunk @ appendString_from (drop ?n src)) @ CHR 0x22 # rest) =
        prepend ?chunk (scan_string (appendString_from (drop ?n src) @ CHR 0x22 # rest))"
      using scan_appendString_step [OF False] by simp
    also have "\<dots> = Some (?chunk @ appendString_from (drop ?n src), rest)"
      using 1 [OF False] by simp
    finally show ?thesis
      unfolding unfold [symmetric] .
  qed
qed

lemma unquote_from_appendString_from:
  "unquote_from (appendString_from src) = Some (coerce src)"
proof (induction src rule: appendString_from.induct)
  case (1 src)
  show ?case
  proof (cases "src = []")
    case True
    then show ?thesis by (simp add: appendString_from_Nil unquote_from_Nil coerce_Nil)
  next
    case False
    let ?chunk = "fst (appendString_step src)" and ?n = "snd (appendString_step src)"
    let ?out = "if valid_rune (DecodeRune src) then take (snd (DecodeRune src)) src
                else EncodeRune RuneError"
    have n: "?n = snd (DecodeRune src)"
      using False by (rule appendString_step_size)
    have unfold: "appendString_from src = ?chunk @ appendString_from (drop ?n src)"
      using False by (rule appendString_from_Cons)
    have step: "unquote_step (?chunk @ appendString_from (drop ?n src)) = Some (?out, length ?chunk)"
      using unquote_step_appendString_step [OF False] .
    have chunk: "?chunk \<noteq> []"
      using False by (rule appendString_step_chunk)
    have ih: "unquote_from (appendString_from (drop ?n src)) = Some (coerce (drop ?n src))"
      using "1.IH" [OF False] .
    have "unquote_from (?chunk @ appendString_from (drop ?n src)) = Some (?out @ coerce (drop ?n src))"
      using chunk unquote_from_Cons [OF _ step] ih by simp
    then show ?thesis
      unfolding unfold using False n by (simp add: coerce_Cons)
  qed
qed

subsection \<open>The string literal as a whole\<close>

lemma plain_prefix_Cons:
  "plain_prefix s =
     (if s = [] \<or> plain_step s = 0 then 0
      else plain_step s + plain_prefix (drop (plain_step s) s))"
  by (subst plain_prefix.simps) simp

lemma plain_step_unquote_step:
  assumes "s \<noteq> []" and "0 < plain_step s"
  shows "unquote_step s = Some (take (plain_step s) s, plain_step s)"
proof -
  obtain c0 q where s: "s = c0 # q"
    using assms(1) by (cases s) auto
  let ?c = "of_char c0 :: nat"
  have plain: "\<not> (?c = 0x5C \<or> ?c = 0x22 \<or> ?c < 0x20)"
    using assms(2) unfolding s by (auto simp: plain_step_def)
  show ?thesis
  proof (cases "?c < 0x80")
    case True
    then show ?thesis
      using plain unfolding s by (simp add: plain_step_def unquote_step_def)
  next
    case False
    then have high: "0x80 \<le> ?c" by simp
    have valid: "valid_rune (DecodeRune (c0 # q))"
      using assms(2) plain False unfolding s
      by (auto simp: plain_step_def valid_rune_def split: if_splits)
    have n: "plain_step (c0 # q) = snd (DecodeRune (c0 # q))"
      using valid plain False by (auto simp: plain_step_def valid_rune_def)
    show ?thesis
      unfolding s n using plain False valid_multibyte(1) [OF high valid]
      by (simp add: unquote_step_def)
  qed
qed

lemma unquote_from_plain:
  "unquote_from s =
     map_option ((@) (take (plain_prefix s) s)) (unquote_from (drop (plain_prefix s) s))"
proof (induction s rule: plain_prefix.induct)
  case (1 s)
  show ?case
  proof (cases "s = [] \<or> plain_step s = 0")
    case True
    then have "plain_prefix s = 0"
      by (subst plain_prefix_Cons) simp
    then show ?thesis
      by (simp add: option.map_ident fun_eq_iff [symmetric] option.map_id0 id_def [symmetric])
  next
    case False
    let ?p = "plain_step s" and ?r = "plain_prefix (drop (plain_step s) s)"
    have pp: "plain_prefix s = ?p + ?r"
      using False by (subst plain_prefix_Cons) simp
    have step: "unquote_step s = Some (take ?p s, ?p)"
      using False by (intro plain_step_unquote_step) simp_all
    have "unquote_from s = map_option ((@) (take ?p s)) (unquote_from (drop ?p s))"
      using False unquote_from_Cons [OF _ step] by simp
    also have "\<dots> = map_option ((@) (take ?p s))
        (map_option ((@) (take ?r (drop ?p s))) (unquote_from (drop ?r (drop ?p s))))"
      using "1.IH" False by simp
    also have "\<dots> = map_option ((@) (take (?p + ?r) s)) (unquote_from (drop (?p + ?r) s))"
      by (cases "unquote_from (drop ?r (drop ?p s))") (simp_all add: take_add add.commute)
    finally show ?thesis
      unfolding pp .
  qed
qed

lemma unquoteBytes_quoted: "unquoteBytes (CHR 0x22 # body @ [CHR 0x22]) = unquote_from body"
proof -
  let ?r = "plain_prefix body"
  have split: "unquote_from body = map_option ((@) (take ?r body)) (unquote_from (drop ?r body))"
    by (rule unquote_from_plain)
  have "unquoteBytes (CHR 0x22 # body @ [CHR 0x22]) =
      (if ?r = length body then Some body
       else case unquote_from (drop ?r body) of None \<Rightarrow> None | Some t \<Rightarrow> Some (take ?r body @ t))"
    by (simp add: unquoteBytes_def Let_def)
  also have "\<dots> = unquote_from body"
  proof (cases "?r = length body")
    case True
    then show ?thesis
      using split by (simp add: unquote_from_Nil)
  next
    case False
    then show ?thesis
      using split by (simp split: option.splits)
  qed
  finally show ?thesis .
qed

lemma decode_string_appendString:
  "decode_string (appendString src @ rest) = Some (coerce src, rest)"
proof -
  have "expect [CHR 0x22] (appendString src @ rest) = Some (appendString_from src @ CHR 0x22 # rest)"
    by (simp add: expect_def appendString_def)
  then show ?thesis
    using scan_appendString_from [of src rest] unquote_from_appendString_from [of src]
    by (simp add: decode_string_def unquoteBytes_quoted)
qed

subsection \<open>Base64\<close>

lemma decodeMap_encodeStd_map:
  "map decodeMap encodeStd = map Some [0..<64]"
  "list_all (\<lambda>c. c \<noteq> CHR ''='') encodeStd"
  "length encodeStd = 64"
  by (simp_all add: encodeStd_def decodeMap_def upt_rec)

lemma decodeMap_encodeStd:
  assumes "i < 64"
  shows "decodeMap (encodeStd ! i) = Some i" and "encodeStd ! i \<noteq> CHR ''=''"
proof -
  have "decodeMap (encodeStd ! i) = map decodeMap encodeStd ! i"
    using assms by (simp add: decodeMap_encodeStd_map(3))
  also have "\<dots> = Some i"
    unfolding decodeMap_encodeStd_map(1) using assms by simp
  finally show "decodeMap (encodeStd ! i) = Some i" .
  show "encodeStd ! i \<noteq> CHR ''=''"
    using decodeMap_encodeStd_map(2,3) assms by (simp add: list_all_length)
qed

lemma horner64:
  fixes a b c d :: nat
  shows "a * 262144 + b * 4096 + c * 64 + d = ((a * 64 + b) * 64 + c) * 64 + d"
  by simp

lemma quantum_digits:
  assumes "v < 16777216"
  shows "quantum (v div 262144 mod 64) (v div 4096 mod 64) (v div 64 mod 64) (v mod 64) = v"
proof -
  have d2: "v div 4096 = v div 64 div 64" and d3: "v div 262144 = v div 64 div 64 div 64"
    by (simp_all add: div_mult2_eq [symmetric])
  have top: "v div 64 div 64 div 64 mod 64 = v div 64 div 64 div 64"
    using assms unfolding d3 [symmetric] by simp
  let ?a = "v div 64 div 64 div 64" and ?b = "v div 64 div 64 mod 64"
    and ?c = "v div 64 mod 64" and ?d = "v mod 64"
  have "?a * 262144 + ?b * 4096 + ?c * 64 + ?d = ((?a * 64 + ?b) * 64 + ?c) * 64 + ?d"
    by (rule horner64)
  also have "\<dots> = v"
  proof -
    have e3: "?a * 64 + ?b = v div 64 div 64" by simp
    have e2: "v div 64 div 64 * 64 + ?c = v div 64" by simp
    have e1: "v div 64 * 64 + ?d = v" by simp
    show ?thesis by (simp only: e3 e2 e1)
  qed
  finally show ?thesis
    unfolding quantum_def d2 d3 top .
qed

lemma unat_byte_of_nat: "unat (of_nat n :: byte) = n mod 256"
  by (simp add: unat_of_nat)

lemma byte_of_nat: "(of_nat (k * 256 + unat b) :: byte) = b"
proof -
  have "unat (of_nat (k * 256 + unat b) :: byte) = (k * 256 + unat b) mod 256"
    by (rule unat_byte_of_nat)
  also have "\<dots> = unat b"
    using unsigned_less [of b, where 'a = nat] by simp
  finally show ?thesis
    by (simp only: word_unat_eq_iff)
qed

lemma encode_digit:
  "decodeMap (encodeStd ! (v mod 64)) = Some (v mod 64)"
  "encodeStd ! (v mod 64) \<noteq> CHR ''=''"
  by (simp_all add: decodeMap_encodeStd)

lemma val_bounds:
  fixes a b c :: byte
  shows "unat a * 65536 + unat b * 256 + unat c < 16777216"
  using unsigned_less [of a, where 'a = nat] unsigned_less [of b, where 'a = nat]
    unsigned_less [of c, where 'a = nat]
  by simp

lemma quantum_bytes:
  fixes a b c :: byte
  defines "v \<equiv> unat a * 65536 + unat b * 256 + unat c"
  shows "(of_nat (v div 65536) :: byte) = a"
    and "(of_nat (v div 256) :: byte) = b"
    and "(of_nat v :: byte) = c"
proof -
  have b: "unat b < 256" and c: "unat c < 256"
    using unsigned_less [of b, where 'a = nat] unsigned_less [of c, where 'a = nat] by simp_all
  have "v = unat a * 65536 + (unat b * 256 + unat c)"
    by (simp add: v_def)
  then have "v div 65536 = unat a"
    using b c by simp
  then show "(of_nat (v div 65536) :: byte) = a"
    by simp
  have "v = (unat a * 256 + unat b) * 256 + unat c"
    by (simp add: v_def)
  then have "v div 256 = unat a * 256 + unat b"
    using c by simp
  then show "(of_nat (v div 256) :: byte) = b"
    by (simp only: byte_of_nat)
  have "v = (unat a * 256 + unat b) * 256 + unat c"
    by (simp add: v_def)
  then show "(of_nat v :: byte) = c"
    by (simp only: byte_of_nat)
qed

lemma base64_Decode_Encode: "base64_Decode (base64_Encode src) = Some src"
proof (induction src rule: base64_Encode.induct)
  case (1 a b c src)
  let ?v = "unat a * 65536 + unat b * 256 + unat c"
  let ?q = "[encodeStd ! (?v div 262144 mod 64), encodeStd ! (?v div 4096 mod 64),
            encodeStd ! (?v div 64 mod 64), encodeStd ! (?v mod 64)]"
  have q: "quantum (?v div 262144 mod 64) (?v div 4096 mod 64) (?v div 64 mod 64) (?v mod 64) = ?v"
    using val_bounds by (rule quantum_digits)
  have enc: "base64_Encode (a # b # c # src) = ?q @ base64_Encode src"
    by (simp add: Let_def)
  show ?case
  proof (cases "base64_Encode src")
    case Nil
    then have "src = []"
      by (cases src rule: base64_Encode.cases) (simp_all add: Let_def)
    then show ?thesis
      unfolding enc Nil using q quantum_bytes [of a b c]
      by (simp add: encode_digit)
  next
    case (Cons x xs)
    then show ?thesis
      unfolding enc using q quantum_bytes [of a b c] 1
      by (simp add: encode_digit)
  qed
next
  case (2 a b)
  let ?v = "unat a * 65536 + unat b * 256 + unat (0 :: byte)"
  have q: "quantum (?v div 262144 mod 64) (?v div 4096 mod 64) (?v div 64 mod 64) (?v mod 64) = ?v"
    using val_bounds by (rule quantum_digits)
  have "?v mod 64 = 0"
    by simp
  then have "quantum (?v div 262144 mod 64) (?v div 4096 mod 64) (?v div 64 mod 64) 0 = ?v"
    using q by simp
  then show ?case
    using quantum_bytes(1,2) [of a b 0]
    by (simp add: encode_digit Let_def)
next
  case (3 a)
  let ?v = "unat a * 65536 + unat (0 :: byte) * 256 + unat (0 :: byte)"
  have q: "quantum (?v div 262144 mod 64) (?v div 4096 mod 64) (?v div 64 mod 64) (?v mod 64) = ?v"
    using val_bounds by (rule quantum_digits)
  have "?v mod 64 = 0" and "?v div 64 mod 64 = 0"
    by simp_all
  then have "quantum (?v div 262144 mod 64) (?v div 4096 mod 64) 0 0 = ?v"
    using q by simp
  then show ?case
    using quantum_bytes(1) [of a 0 0]
    by (simp add: encode_digit Let_def)
next
  case 4
  show ?case by simp
qed

subsection \<open>Integers\<close>

lemma format_uint_small: "n < 10 \<Longrightarrow> format_uint n = [char_of (0x30 + n)]"
  by (subst format_uint.simps) simp

lemma format_uint_large:
  "\<not> n < 10 \<Longrightarrow> format_uint n = format_uint (n div 10) @ [char_of (0x30 + n mod 10)]"
  by (subst format_uint.simps) simp

lemma digit_char:
  assumes "d < 10"
  shows "is_digit (char_of (0x30 + d))" and "(of_char (char_of (0x30 + d)) :: nat) - 0x30 = d"
    and "(of_char (char_of (0x30 + d)) :: nat) = 0x30 + d"
  using assms by (simp_all add: is_digit_def)

lemma parse_uint_snoc:
  "parse_uint a (xs @ [c]) =
     (case parse_uint a xs of
        None \<Rightarrow> None
      | Some m \<Rightarrow> if is_digit c then Some (m * 10 + (of_char c - 0x30)) else None)"
  by (induction xs arbitrary: a) simp_all

lemma parse_uint_format_uint: "parse_uint 0 (format_uint n) = Some n"
proof (induction n rule: format_uint.induct)
  case (1 n)
  show ?case
  proof (cases "n < 10")
    case True
    then show ?thesis
      by (simp add: format_uint_small digit_char)
  next
    case False
    have "n mod 10 < 10" by simp
    then show ?thesis
      using False "1.IH" [OF False]
      by (simp add: format_uint_large parse_uint_snoc digit_char(1,2) del: of_char_of)
  qed
qed

lemma format_uint_digits: "list_all is_digit (format_uint n)" "format_uint n \<noteq> []"
proof (induction n rule: format_uint.induct)
  case (1 n)
  have "n mod 10 < 10" by simp
  then have last: "is_digit (char_of (0x30 + n mod 10))"
    by (rule digit_char(1))
  {
    case 1
    show ?case
    proof (cases "n < 10")
      case True
      then show ?thesis by (simp add: format_uint_small digit_char(1))
    next
      case False
      then show ?thesis
        using "1.IH"(1) [OF False] last by (simp add: format_uint_large)
    qed
  next
    case 2
    show ?case
      by (cases "n < 10") (simp_all add: format_uint_small format_uint_large)
  }
qed

lemma format_uint_hd: "hd (format_uint n) = CHR ''0'' \<Longrightarrow> n = 0"
proof (induction n rule: format_uint.induct)
  case (1 n)
  show ?case
  proof (cases "n < 10")
    case True
    then have "(of_char (hd (format_uint n)) :: nat) = 0x30 + n"
      by (simp add: format_uint_small digit_char(3))
    then show ?thesis
      using "1.prems" by simp
  next
    case False
    then have "hd (format_uint n) = hd (format_uint (n div 10))"
      using format_uint_digits(2) [of "n div 10"] by (simp add: format_uint_large)
    then have "n div 10 = 0"
      using "1.IH" [OF False] "1.prems" by simp
    then show ?thesis
      using False by simp
  qed
qed

lemma format_uint_zero: "format_uint n = [CHR ''0''] \<or> hd (format_uint n) \<noteq> CHR ''0''"
  using format_uint_hd [of n] by (auto simp: format_uint_small)

lemma is_digit_not_sign: "is_digit c \<Longrightarrow> c \<noteq> CHR ''-'' \<and> c \<noteq> CHR ''+''"
  by (auto simp: is_digit_def)

lemma format_uint_hd_digit: "is_digit (hd (format_uint n))"
  using format_uint_digits [of n] by (cases "format_uint n") simp_all

lemma ParseInt_FormatInt:
  assumes "int64 i"
  shows "ParseInt (FormatInt i) = Some i"
proof (cases "i < 0")
  case True
  then have "FormatInt i = CHR ''-'' # format_uint (nat (- i))"
    by (simp add: FormatInt_def)
  then show ?thesis
    using True assms format_uint_digits(2) [of "nat (- i)"]
    by (simp add: ParseInt_def parse_uint_format_uint int64_def)
next
  case False
  then have f: "FormatInt i = format_uint (nat i)"
    by (simp add: FormatInt_def)
  have "hd (format_uint (nat i)) \<noteq> CHR ''-'' \<and> hd (format_uint (nat i)) \<noteq> CHR ''+''"
    using format_uint_hd_digit is_digit_not_sign by blast
  then show ?thesis
    unfolding f using False assms format_uint_digits(2) [of "nat i"]
    by (simp add: ParseInt_def parse_uint_format_uint int64_def)
qed

lemma json_integer_FormatInt: "json_integer (FormatInt i)"
proof -
  have "json_integer (format_uint n)" for n
    using format_uint_digits [of n] format_uint_zero [of n] format_uint_hd_digit [of n]
      is_digit_not_sign [of "hd (format_uint n)"]
    by (auto simp: json_integer_def)
  moreover have "json_integer (CHR ''-'' # format_uint n)" for n
    using format_uint_digits [of n] format_uint_zero [of n]
    by (auto simp: json_integer_def)
  ultimately show ?thesis
    by (simp add: FormatInt_def)
qed

lemma FormatInt_numchars: "\<forall>c \<in> set (FormatInt i). is_numchar c"
  using format_uint_digits(1)
  by (auto simp: FormatInt_def is_numchar_def list_all_iff)

lemma decode_int_FormatInt:
  assumes "int64 i" and "\<not> is_numchar c"
  shows "decode_int (FormatInt i @ c # rest) = Some (i, c # rest)"
proof -
  have "takeWhile is_numchar (FormatInt i @ c # rest) = FormatInt i"
    using FormatInt_numchars [of i] assms(2) by (simp add: takeWhile_tail)
  moreover have "dropWhile is_numchar (FormatInt i @ c # rest) = c # rest"
    using FormatInt_numchars [of i] assms(2) by (simp add: dropWhile_append3)
  ultimately show ?thesis
    using ParseInt_FormatInt [OF assms(1)] json_integer_FormatInt [of i]
    by (simp add: decode_int_def)
qed

lemma ValidString_ascii: "\<forall>c \<in> set s. (of_char c :: nat) < 0x80 \<Longrightarrow> ValidString s"
proof (induction s)
  case Nil
  show ?case by (rule ValidString_Nil)
next
  case (Cons c s)
  then have "DecodeRune (c # s) = (of_char c, 1)"
    by (simp add: DecodeRune_ascii)
  moreover have "(of_char c :: nat) \<noteq> RuneError"
    using Cons.prems by (auto simp: RuneError_def)
  ultimately show ?case
    using Cons by (simp add: ValidString_Cons valid_rune_def)
qed

lemma ValidString_FormatInt: "ValidString (FormatInt i)"
proof -
  have digit: "is_digit c \<Longrightarrow> (of_char c :: nat) < 0x80" for c
    by (simp add: is_digit_def)
  have "\<forall>c \<in> set (format_uint n). (of_char c :: nat) < 0x80" for n
    using format_uint_digits(1) [of n] digit by (auto simp: list_all_iff)
  then have "\<forall>c \<in> set (FormatInt i). (of_char c :: nat) < 0x80"
    by (simp add: FormatInt_def)
  then show ?thesis
    by (rule ValidString_ascii)
qed

lemma expect_append [simp]: "expect lit (lit @ t) = Some t"
  by (simp add: expect_def)

lemma expect_Cons [simp]: "expect (c # lit) (c # t) = expect lit t"
  by (simp add: expect_def)

lemma expect_Nil [simp]: "expect [] t = Some t"
  by (simp add: expect_def)

lemma expect_mismatch [simp]: "c \<noteq> d \<Longrightarrow> expect (c # lit) (d # t) = None"
  by (simp add: expect_def)

subsection \<open>Byte slices, booleans and records\<close>

lemma encodeStd_plain: "list_all plain_ascii encodeStd"
  by (simp add: encodeStd_def plain_ascii_def)

lemma encodeStd_nth_plain: "plain_ascii (encodeStd ! (v mod 64))"
  using encodeStd_plain decodeMap_encodeStd_map(3) by (simp add: list_all_length)

lemma base64_Encode_plain: "list_all plain_ascii (base64_Encode src)"
proof (induction src rule: base64_Encode.induct)
  case (1 a b c src)
  then show ?case by (simp add: Let_def encodeStd_nth_plain)
next
  case (2 a b)
  show ?case by (simp add: Let_def encodeStd_nth_plain) (simp add: plain_ascii_def)
next
  case (3 a)
  show ?case by (simp add: Let_def encodeStd_nth_plain) (simp add: plain_ascii_def)
next
  case 4
  show ?case by simp
qed

lemma unquote_step_plain_ascii: "plain_ascii c \<Longrightarrow> unquote_step (c # t) = Some ([c], 1)"
  by (simp add: plain_ascii_def unquote_step_def Let_def)

lemma unquote_from_plain_ascii: "list_all plain_ascii xs \<Longrightarrow> unquote_from xs = Some xs"
proof (induction xs)
  case Nil
  show ?case by (rule unquote_from_Nil)
next
  case (Cons c xs)
  then show ?case
    using unquote_from_Cons [OF _ unquote_step_plain_ascii, of c xs] by simp
qed

lemma decode_string_plain:
  assumes "list_all plain_ascii xs"
  shows "decode_string (CHR 0x22 # xs @ CHR 0x22 # rest) = Some (xs, rest)"
proof -
  have "\<forall>c \<in> set xs. c \<noteq> CHR 0x22 \<and> c \<noteq> CHR 0x5C"
    using assms by (auto simp: list_all_iff plain_ascii_def)
  then have "scan_string (xs @ CHR 0x22 # rest) = Some (xs, rest)"
    by (simp add: scan_plain_list)
  then show ?thesis
    using unquote_from_plain_ascii [OF assms]
    by (simp add: decode_string_def unquoteBytes_quoted)
qed

lemma decode_bytes_encodeByteSlice:
  "decode_bytes (encodeByteSlice v @ rest) = Some (v, rest)"
proof (cases v)
  case None
  then show ?thesis
    by (simp add: decode_bytes_def encodeByteSlice_def)
next
  case (Some src)
  then show ?thesis
    using decode_string_plain [OF base64_Encode_plain, of src rest]
    by (simp add: decode_bytes_def encodeByteSlice_def base64_Decode_Encode)
qed

lemma decode_bool_boolEncoder: "decode_bool (boolEncoder b @ rest) = Some (b, rest)"
  by (simp add: decode_bool_def boolEncoder_def)

lemma coerce_valid_User: "valid_User u \<Longrightarrow> coerce_User u = u"
  by (simp add: valid_User_def coerce_User_def coerce_ValidString)

lemma decode_User_encode_User:
  assumes "int64 (ID u)"
  shows "decode_User (encode_User u @ rest) = Some (coerce_User u, rest)"
proof -
  have ident: "decode_int (FormatInt (ID u) @ CHR '','' # t) = Some (ID u, CHR '','' # t)" for t
    using assms by (simp add: decode_int_FormatInt is_numchar_def is_digit_def)
  show ?thesis
    by (simp add: decode_User_def encode_User_def decode_string_appendString ident
        decode_bytes_encodeByteSlice decode_bool_boolEncoder coerce_User_def)
qed

subsection \<open>The map and the document\<close>

lemma encode_entry_quote: "\<exists>t. encode_entry m k = CHR 0x22 # t"
  by (simp add: encode_entry_def appendString_def)

lemma encode_entries_length: "length ks \<le> length (encode_entries m i ks)"
proof (induction ks arbitrary: i)
  case Nil
  show ?case by simp
next
  case (Cons k ks)
  obtain t where "encode_entry m k = CHR 0x22 # t"
    using encode_entry_quote by blast
  then show ?case
    using Cons [of "Suc i"] by simp
qed

lemma decode_entry:
  assumes "fmlookup m k = Some u" and "int64 k" and "int64 (ID u)"
  shows "decode_entries (Suc fuel) acc (encode_entry m k @ c # rest) =
           (if c = CHR '','' then decode_entries fuel (fmupd k (coerce_User u) acc) rest
            else if c = CHR ''}'' then Some (fmupd k (coerce_User u) acc, rest)
            else None)"
proof -
  have "decode_string (appendString (FormatInt k) @ t) = Some (FormatInt k, t)" for t
    using decode_string_appendString [of "FormatInt k" t]
    by (simp add: coerce_ValidString ValidString_FormatInt)
  then show ?thesis
    using assms
    by (simp add: encode_entry_def decode_User_encode_User ParseInt_FormatInt)
qed

lemma decode_entries_encode_entries:
  assumes "\<forall>k \<in> set (k0 # ks). \<exists>u. fmlookup m k = Some u \<and> int64 k \<and> int64 (ID u)"
    and "length ks < fuel"
  shows "decode_entries fuel acc
           (encode_entry m k0 @ encode_entries m (Suc i) ks @ CHR ''}'' # rest) =
         Some (fold (\<lambda>k. fmupd k (coerce_User (the (fmlookup m k)))) (k0 # ks) acc, rest)"
  using assms
proof (induction ks arbitrary: k0 acc fuel i)
  case Nil
  then obtain u where u: "fmlookup m k0 = Some u" "int64 k0" "int64 (ID u)"
    by auto
  obtain fuel' where fuel: "fuel = Suc fuel'"
    using Nil.prems(2) by (cases fuel) auto
  show ?case
    unfolding fuel using decode_entry [OF u, of fuel' acc "CHR ''}''" rest] u(1) by simp
next
  case (Cons k1 ks)
  then obtain u where u: "fmlookup m k0 = Some u" "int64 k0" "int64 (ID u)"
    by auto
  obtain fuel' where fuel: "fuel = Suc fuel'" and less: "length ks < fuel'"
    using Cons.prems(2) by (cases fuel) auto
  have rest: "\<forall>k \<in> set (k1 # ks). \<exists>u. fmlookup m k = Some u \<and> int64 k \<and> int64 (ID u)"
    using Cons.prems(1) by simp
  have "decode_entries (Suc fuel') acc
      (encode_entry m k0 @ CHR '','' # (encode_entry m k1 @ encode_entries m (Suc (Suc i)) ks @ CHR ''}'' # rest)) =
      decode_entries fuel' (fmupd k0 (coerce_User u) acc)
      (encode_entry m k1 @ encode_entries m (Suc (Suc i)) ks @ CHR ''}'' # rest)"
    using decode_entry [OF u, of fuel' acc "CHR '',''"] by simp
  also have "\<dots> = Some (fold (\<lambda>k. fmupd k (coerce_User (the (fmlookup m k)))) (k1 # ks)
      (fmupd k0 (coerce_User u) acc), rest)"
    using Cons.IH [OF rest less] .
  finally show ?case
    unfolding fuel using u(1) by simp
qed

lemma fold_fmupd_lookup:
  "fmlookup (fold (\<lambda>k. fmupd k (f (the (fmlookup m k)))) ks acc) x =
     (if x \<in> set ks then Some (f (the (fmlookup m x))) else fmlookup acc x)"
  by (induction ks arbitrary: acc) auto

lemma fold_fmupd_all:
  assumes "set ks = fset (fmdom m)"
  shows "fold (\<lambda>k. fmupd k (f (the (fmlookup m k)))) ks fmempty = fmmap f m"
proof (rule fmap_ext)
  fix x
  show "fmlookup (fold (\<lambda>k. fmupd k (f (the (fmlookup m k)))) ks fmempty) x = fmlookup (fmmap f m) x"
    using assms by (cases "fmlookup m x") (auto simp: fold_fmupd_lookup fmlookup_dom_iff)
qed

lemma set_sorted_keys: "set (sorted_keys m) = fset (fmdom m)"
  by (simp add: sorted_keys_def sorted_list_of_fset.rep_eq)

lemma decode_map_entries:
  "decode_map (CHR ''{'' # CHR 0x22 # t) =
     do {
       (m, rest) \<leftarrow> decode_entries (Suc (Suc (length t))) fmempty (CHR 0x22 # t);
       Some (Some m, rest)
     }"
  by (simp add: decode_map_def del: decode_entries.simps)

lemma decode_map_mapEncoder:
  assumes "case v of None \<Rightarrow> True | Some m \<Rightarrow> fmpred (\<lambda>k u. int64 k \<and> int64 (ID u)) m"
  shows "decode_map (mapEncoder v @ rest) = Some (map_option (fmmap coerce_User) v, rest)"
proof (cases v)
  case None
  then show ?thesis
    by (simp add: mapEncoder_def decode_map_def)
next
  case (Some m)
  then have inv: "fmpred (\<lambda>k u. int64 k \<and> int64 (ID u)) m"
    using assms by simp
  show ?thesis
  proof (cases "sorted_keys m")
    case Nil
    then have "fset (fmdom m) = {}"
      using set_sorted_keys [of m] by simp
    then have "m = fmempty"
      by (intro fmap_ext) (auto simp: fmlookup_dom_iff dest: fmdomI)
    then show ?thesis
      using Some Nil by (simp add: mapEncoder_def decode_map_def)
  next
    case (Cons k0 ks)
    define body where "body = encode_entry m k0 @ encode_entries m (Suc 0) ks @ CHR ''}'' # rest"
    obtain t where t: "encode_entry m k0 = CHR 0x22 # t"
      using encode_entry_quote by blast
    define b where "b = t @ encode_entries m (Suc 0) ks @ CHR ''}'' # rest"
    have body: "body = CHR 0x22 # b"
      by (simp add: body_def b_def t)
    have shape: "mapEncoder v @ rest = CHR ''{'' # body"
      using Some Cons by (simp add: mapEncoder_def body_def)
    have keys: "\<forall>k \<in> set (k0 # ks). \<exists>u. fmlookup m k = Some u \<and> int64 k \<and> int64 (ID u)"
    proof
      fix k assume "k \<in> set (k0 # ks)"
      then have "k \<in> set (sorted_keys m)"
        using Cons by simp
      then have "k |\<in>| fmdom m"
        unfolding set_sorted_keys by simp
      then obtain u where "fmlookup m k = Some u"
        by (auto simp: fmlookup_dom_iff)
      then show "\<exists>u. fmlookup m k = Some u \<and> int64 k \<and> int64 (ID u)"
        using inv by (auto dest: fmpredD)
    qed
    have fuel: "length ks < Suc (Suc (length b))"
      using encode_entries_length [of ks m "Suc 0"] by (simp add: b_def)
    have "decode_entries (Suc (Suc (length b))) fmempty body =
        Some (fold (\<lambda>k. fmupd k (coerce_User (the (fmlookup m k)))) (k0 # ks) fmempty, rest)"
      unfolding body_def using keys fuel by (rule decode_entries_encode_entries)
    also have "fold (\<lambda>k. fmupd k (coerce_User (the (fmlookup m k)))) (k0 # ks) fmempty = fmmap coerce_User m"
      using set_sorted_keys [of m] Cons by (intro fold_fmupd_all) simp
    finally have "decode_entries (Suc (Suc (length b))) fmempty (CHR 0x22 # b) =
        Some (fmmap coerce_User m, rest)"
      unfolding body .
    then show ?thesis
      unfolding shape body decode_map_entries using Some by simp
  qed
qed

lemma Unmarshal_Marshal:
  assumes "int64_document s"
  shows "Unmarshal (Marshal s) = Inr (coerce_document s)"
  using assms decode_map_mapEncoder [of "Users s" "''}''"]
  by (simp add: Unmarshal_def Marshal_def int64_document_def coerce_document_def)

lemma coerce_valid_document:
  assumes "valid_document s"
  shows "coerce_document s = s"
proof (cases "Users s")
  case None
  then show ?thesis by (simp add: coerce_document_def)
next
  case (Some m)
  then have valid: "fmpred (\<lambda>k u. valid_User u) m"
    using assms by (simp add: valid_document_def)
  have "fmmap coerce_User m = m"
  proof (rule fmap_ext)
    fix x
    show "fmlookup (fmmap coerce_User m) x = fmlookup m x"
    proof (cases "fmlookup m x")
      case None
      then show ?thesis by simp
    next
      case (Some u)
      then have "valid_User u"
        using valid by (auto dest: fmpredD)
      then show ?thesis
        using Some by (simp add: coerce_valid_User)
    qed
  qed
  then show ?thesis
    using Some by (simp add: coerce_document_def)
qed

subsection \<open>What is read back is valid and is read back as it is\<close>

lemma ValidString_chunk:
  assumes "chunk \<noteq> []" and "DecodeRune (chunk @ r) = (x, length chunk)"
    and "valid_rune (x, length chunk)"
  shows "ValidString (chunk @ r) = ValidString r"
  using assms by (subst ValidString_Cons) simp_all

lemma DecodeRune_replacement: "DecodeRune (EncodeRune RuneError @ r) = (RuneError, 3)"
  by (simp add: EncodeRune_def RuneError_def DecodeRune_def first_size_def accept_lo_def
      accept_hi_def Let_def)

lemma ValidString_coerce: "ValidString (coerce s)"
proof (induction s rule: coerce.induct)
  case (1 s)
  show ?case
  proof (cases "s = []")
    case True
    then show ?thesis by (simp add: coerce_Nil ValidString_Nil)
  next
    case False
    then obtain c0 q where s: "s = c0 # q"
      by (cases s) auto
    let ?n = "snd (DecodeRune s)"
    let ?r = "coerce (drop ?n s)"
    have ih: "ValidString ?r"
      using "1.IH" [OF False] .
    have n: "1 \<le> ?n" "?n \<le> length s"
      using DecodeRune_size [OF False] DecodeRune_size_le [of s] by simp_all
    show ?thesis
    proof (cases "valid_rune (DecodeRune s)")
      case invalid: False
      have "ValidString (EncodeRune RuneError @ ?r) = ValidString ?r"
        by (rule ValidString_chunk [where x = RuneError])
           (simp_all add: DecodeRune_replacement valid_rune_def, simp_all add: EncodeRune_def RuneError_def)
      then show ?thesis
        using False invalid ih by (simp add: coerce_Cons)
    next
      case valid: True
      have len: "length (take ?n s) = ?n"
        using n by simp
      have "DecodeRune (take ?n s @ ?r) = DecodeRune s"
      proof (cases "(of_char c0 :: nat) < 0x80")
        case True
        then show ?thesis
          unfolding s by (simp add: DecodeRune_ascii)
      next
        case high: False
        then show ?thesis
          unfolding s using valid_multibyte(2) [of c0 q ?r] valid s by simp
      qed
      then have "DecodeRune (take ?n s @ ?r) = (fst (DecodeRune s), length (take ?n s))"
        unfolding len by simp
      moreover have "valid_rune (fst (DecodeRune s), length (take ?n s))"
        unfolding len using valid by simp
      moreover have "take ?n s \<noteq> []"
        using n False by (cases s) auto
      ultimately have "ValidString (take ?n s @ ?r) = ValidString ?r"
        by (intro ValidString_chunk)
      then show ?thesis
        using False valid ih by (simp add: coerce_Cons)
    qed
  qed
qed

lemma coerce_idem: "coerce (coerce s) = coerce s"
  by (simp add: coerce_ValidString ValidString_coerce)

lemma coerce_User_idem: "coerce_User (coerce_User u) = coerce_User u"
  by (simp add: coerce_User_def coerce_idem)

lemma coerce_document_idem: "coerce_document (coerce_document s) = coerce_document s"
proof (cases "Users s")
  case None
  then show ?thesis by (simp add: coerce_document_def)
next
  case (Some m)
  have "fmmap coerce_User (fmmap coerce_User m) = fmmap coerce_User m"
    by (rule fmap_ext) (simp add: option.map_comp comp_def coerce_User_idem)
  then show ?thesis
    using Some by (simp add: coerce_document_def)
qed

lemma coerce_User_fields:
  "ID (coerce_User u) = ID u" "Password (coerce_User u) = Password u"
  "IsChirpyRed (coerce_User u) = IsChirpyRed u"
  "Email (coerce_User u) = coerce (Email u)" "RefreshToken (coerce_User u) = coerce (RefreshToken u)"
  by (simp_all add: coerce_User_def)


section \<open>Properties of the store\<close>

subsection \<open>Loading and writing\<close>

lemma loadUserDB_Encoded:
  "at_path d = Content (Encoded s) \<Longrightarrow> loadUserDB d = Inr (coerce_document s)"
  by (simp add: loadUserDB_def os_ReadFile_def json_Unmarshal_def)

lemma loadUserDB_Inr_iff:
  "loadUserDB d = Inr s \<longleftrightarrow> (\<exists>s0. at_path d = Content (Encoded s0) \<and> s = coerce_document s0)"
  by (auto simp: loadUserDB_def os_ReadFile_def json_Unmarshal_def split: stored.splits bytes.splits)

text \<open>A document that was loaded is read back as it is.\<close>

lemma loaded_fixed: "loadUserDB d = Inr s \<Longrightarrow> coerce_document s = s"
  by (auto simp: loadUserDB_Inr_iff coerce_document_idem)

lemma load_written:
  "loadUserDB (d\<lparr>at_path := Content (Encoded s)\<rparr>) = Inr (coerce_document s)"
  by (simp add: loadUserDB_Encoded)

lemma writeUserDB_ok:
  "write_fault d = None \<Longrightarrow> writeUserDB d s = (None, d\<lparr>at_path := Content (Encoded s)\<rparr>)"
  by (simp add: writeUserDB_def json_Marshal_def os_WriteFile_def)

lemma writeUserDB_Refused:
  "write_fault d = Some Refused \<Longrightarrow> writeUserDB d s = (Some ErrWrite, d)"
  by (simp add: writeUserDB_def json_Marshal_def os_WriteFile_def)

lemma writeUserDB_Partial:
  "write_fault d = Some Partial \<Longrightarrow> writeUserDB d s = (Some ErrWrite, d\<lparr>at_path := Content Garbled\<rparr>)"
  by (simp add: writeUserDB_def json_Marshal_def os_WriteFile_def)

lemma writeUserDB_None:
  "writeUserDB d s = (None, d') \<Longrightarrow> write_fault d = None \<and> d' = d\<lparr>at_path := Content (Encoded s)\<rparr>"
  by (cases "write_fault d"; cases "the (write_fault d)")
     (auto simp: writeUserDB_def json_Marshal_def os_WriteFile_def)

subsection \<open>What coercion keeps\<close>

lemma Users_coerce_document: "Users (coerce_document s) = map_option (fmmap coerce_User) (Users s)"
  by (simp add: coerce_document_def)

lemma len_map_coerce: "len_map (map_option (fmmap coerce_User) g) = len_map g"
  by (cases g) (simp_all add: len_map_def)

lemma lookup_map_coerce:
  "lookup_map (map_option (fmmap coerce_User) g) k = map_option coerce_User (lookup_map g k)"
  by (cases g) (simp_all add: lookup_map_def)

lemma coerce_document_upd:
  "coerce_document (s\<lparr>Users := Some (fmupd k u m)\<rparr>) =
     \<lparr>Users = Some (fmupd k (coerce_User u) (fmmap coerce_User m))\<rparr>"
  by (simp add: coerce_document_def fmmap_fmupd)

lemma fixed_map:
  assumes "coerce_document s = s" and "Users s = Some m"
  shows "fmmap coerce_User m = m"
  using assms Users_coerce_document [of s] by simp

lemma fixed_record:
  assumes "coerce_document s = s" and "lookup_map (Users s) k = Some u"
  shows "coerce_User u = u"
proof -
  have "lookup_map (Users (coerce_document s)) k = Some (coerce_User u)"
    using assms(2) by (simp add: Users_coerce_document lookup_map_coerce)
  then show ?thesis
    using assms by simp
qed

lemma coerce_new_user: "ValidString (fst a) \<Longrightarrow> coerce_User (new_user i a) = new_user i a"
  by (simp add: coerce_User_def new_user_def coerce_ValidString coerce_Nil)

lemma coerce_User_new_user: "coerce_User (new_user i a) = new_user i (coerce (fst a), snd a)"
  by (simp add: coerce_User_def new_user_def coerce_Nil)

subsection \<open>One call of \<open>CreateUser\<close> and of \<open>NewUserDB\<close>\<close>

lemma append_all_eq: "append_all users xs = users @ xs"
  by (induction xs arbitrary: users) auto

lemma create_seq_snoc:
  "create_seq (xs @ [a]) d =
     (case create_seq xs d of
        (rs, d') \<Rightarrow> (case CreateUser (fst a) (snd a) d' of (r, d'') \<Rightarrow> (rs @ [r], d'')))"
  by (induction xs arbitrary: d) (auto split: prod.splits)

lemma CreateUser_ok:
  assumes "loadUserDB d = Inr s" "Users s = Some m" "write_fault d = None"
  shows "CreateUser body password d =
     (Inr (new_user (int (fcard (fmdom m)) + 1) (body, password)),
      d\<lparr>at_path := Content (Encoded (s\<lparr>Users := Some (fmupd (int (fcard (fmdom m)) + 1)
           (new_user (int (fcard (fmdom m)) + 1) (body, password)) m)\<rparr>))\<rparr>)"
  using assms
  by (simp add: CreateUser_def len_map_def assign_map_def Let_def
      writeUserDB_ok index_map_def lookup_map_def new_user_def)

lemma NewUserDB_fresh:
  assumes "at_path d = NotExist" "write_fault d = None"
  shows "NewUserDB d = (Inr (), d\<lparr>at_path := Content (Encoded \<lparr>Users = Some fmempty\<rparr>)\<rparr>)"
  using assms by (simp add: NewUserDB_def ensureUserDB_def os_ReadFile_def writeUserDB_ok)

lemma fcard_dense:
  assumes "\<forall>i. fmlookup m i = None \<longleftrightarrow> \<not> (1 \<le> i \<and> i \<le> int n)"
  shows "fcard (fmdom m) = n"
proof -
  have "fset (fmdom m) = {1..int n}"
  proof (rule set_eqI)
    fix i
    have "fmlookup m i = None \<longleftrightarrow> \<not> (1 \<le> i \<and> i \<le> int n)"
      using assms by (rule spec)
    then show "i \<in> fset (fmdom m) \<longleftrightarrow> i \<in> {1..int n}"
      by (cases "fmlookup m i") (simp_all add: fmlookup_dom_iff)
  qed
  then show ?thesis by (simp add: fcard.rep_eq)
qed

lemma CreateUser_Inr:
  assumes "CreateUser e p d = (Inr u, d')"
  shows "\<exists>s m. loadUserDB d = Inr s \<and> Users s = Some m \<and> write_fault d = None"
proof (cases "loadUserDB d")
  case (Inl err)
  then show ?thesis using assms by (simp add: CreateUser_def)
next
  case (Inr s)
  show ?thesis
  proof (cases "Users s")
    case None
    then show ?thesis using assms Inr by (simp add: CreateUser_def assign_map_def)
  next
    case (Some m)
    let ?s = "s\<lparr>Users := Some (fmupd (len_map (Users s) + 1)
        \<lparr>Email = e, ID = len_map (Users s) + 1, Password = p,
         RefreshToken = [], IsChirpyRed = False\<rparr> m)\<rparr>"
    obtain r d'' where w: "writeUserDB d ?s = (r, d'')"
      by (cases "writeUserDB d ?s")
    have "r = None"
      using assms Inr Some w by (cases r) (simp_all add: CreateUser_def assign_map_def)
    with w have "write_fault d = None"
      using writeUserDB_None by blast
    with Inr Some show ?thesis by blast
  qed
qed

subsection \<open>The loop and the sort of \<open>GetUser\<close>\<close>

lemma map_filter_total:
  "\<forall>k \<in> set ks. f k \<noteq> None \<Longrightarrow> List.map_filter f ks = map (\<lambda>k. the (f k)) ks"
  by (induction ks) (auto simp: List.map_filter_simps)

lemma range_map_Some:
  assumes "range_order (Some m) ks"
  shows "range_map (Some m) ks = map (\<lambda>k. the (fmlookup m k)) ks"
proof -
  have "\<forall>k \<in> set ks. fmlookup m k \<noteq> None"
    using assms by (auto simp: range_order_def fmlookup_dom_iff)
  then show ?thesis
    by (simp add: range_map_def map_filter_total)
qed

lemma range_map_length:
  assumes "range_order g ks"
  shows "int (length (range_map g ks)) = len_map g"
proof (cases g)
  case None
  then show ?thesis by (simp add: range_map_def len_map_def)
next
  case (Some m)
  have ks: "distinct ks" "set ks = fset (fmdom m)"
    using assms Some by (simp_all add: range_order_def)
  have "length ks = card (set ks)"
    using ks(1) by (simp add: distinct_card)
  also have "\<dots> = fcard (fmdom m)"
    unfolding ks(2) by (simp add: fcard.rep_eq)
  finally show ?thesis
    using assms Some by (simp add: range_map_Some len_map_def)
qed

lemma range_map_mset:
  assumes "range_order g ks"
  shows "mset (range_map g ks) = records g"
proof (cases g)
  case None
  then show ?thesis by (simp add: range_map_def records_def)
next
  case (Some m)
  have "mset_set (fset (fmdom m)) = mset ks"
    using assms Some by (simp add: range_order_def mset_set_set [symmetric])
  then show ?thesis
    using assms Some by (simp add: range_map_Some records_def)
qed

lemma GetUser_ok:
  "loadUserDB d = Inr s \<Longrightarrow> GetUser ks d = (Inr (sort_key ID (range_map (Users s) ks)), d)"
  by (simp add: GetUser_def append_all_eq sort_Slice_def)

text \<open>
  Insertion sort stands for \<^verbatim>\<open>sort.Slice\<close> without loss: every arrangement of the
  records that is sorted by \<open>ID\<close> is what \<open>GetUser\<close> computes for some order of the
  visit.
\<close>

lemma mset_map_preimage:
  "mset users = image_mset v M \<Longrightarrow> \<exists>ks. mset ks = M \<and> map v ks = users"
proof (induction users arbitrary: M)
  case Nil
  then show ?case by simp
next
  case (Cons u us)
  then have "image_mset v M = add_mset u (mset us)"
    by simp
  then obtain M' k where M: "M = add_mset k M'" "v k = u" "image_mset v M' = mset us"
    by (auto dest: msed_map_invR)
  then obtain ks where "mset ks = M'" "map v ks = us"
    using Cons.IH [of M'] by auto
  then have "mset (k # ks) = M \<and> map v (k # ks) = u # us"
    using M by simp
  then show ?case by (intro exI [of _ "k # ks"])
qed

lemma sort_Slice_any_order:
  assumes "sorted (map ID users)" and "mset users = records g"
  shows "\<exists>ks. range_order g ks \<and> sort_Slice (append_all [] (range_map g ks)) = users"
proof (cases g)
  case None
  then have "users = []"
    using assms(2) by (simp add: records_def)
  then show ?thesis
    using None by (intro exI [of _ "[]"]) (simp add: range_order_def range_map_def sort_Slice_def)
next
  case (Some m)
  then obtain ks where ks: "mset ks = mset_set (fset (fmdom m))"
    "map (\<lambda>k. the (fmlookup m k)) ks = users"
    using assms(2) mset_map_preimage [of users "\<lambda>k. the (fmlookup m k)"]
    by (auto simp: records_def)
  have keys: "set ks = fset (fmdom m)"
    using arg_cong [OF ks(1), of set_mset] by simp
  have "distinct ks"
    unfolding distinct_count_atmost_1 ks(1) keys by (simp add: count_mset_set')
  with keys have order: "range_order g ks"
    using Some by (simp add: range_order_def)
  then have "range_map g ks = users"
    using Some ks(2) by (simp add: range_map_Some)
  then have "sort_Slice (append_all [] (range_map g ks)) = users"
    using assms(1) by (simp add: append_all_eq sort_Slice_def sort_key_id_if_sorted)
  with order show ?thesis by blast
qed

subsection \<open>Facts about the example stores\<close>

lemma ascii_fixed: "\<forall>c \<in> set s. (of_char c :: nat) < 0x80 \<Longrightarrow> coerce s = s"
  by (simp add: coerce_ValidString ValidString_ascii)

lemma coerce_alice: "coerce_User alice = alice" "coerce_User (alice\<lparr>ID := i\<rparr>) = alice\<lparr>ID := i\<rparr>"
  by (simp_all add: coerce_User_def alice_def ascii_fixed)

lemma coerce_bob: "coerce_User bob = bob" "coerce_User (bob\<lparr>ID := i\<rparr>) = bob\<lparr>ID := i\<rparr>"
  by (simp_all add: coerce_User_def bob_def ascii_fixed coerce_Nil)

lemma load_two_users: "loadUserDB (on_disk two_users w) = Inr two_users"
  by (simp add: on_disk_def loadUserDB_Encoded coerce_document_def two_users_def coerce_alice
      coerce_bob fmmap_fmupd)

lemma load_swapped: "loadUserDB (on_disk swapped w) = Inr swapped"
  by (simp add: on_disk_def loadUserDB_Encoded coerce_document_def swapped_def coerce_alice
      coerce_bob fmmap_fmupd)

lemma order_two_users: "range_order (Users two_users) [2, 1]"
  by (simp add: two_users_def range_order_def)

lemma len_two_users: "len_map (Users two_users) = 2"
  by (simp add: two_users_def len_map_def fcard_finsert_if fcard_fempty)

lemma GetUser_two_users:
  "GetUser [2, 1] (on_disk two_users None) = (Inr [alice, bob], on_disk two_users None)"
proof -
  have "sort_key ID (range_map (Users two_users) [2, 1]) = [alice, bob]"
    by (simp add: two_users_def range_map_def List.map_filter_simps alice_def bob_def)
  then show ?thesis
    using GetUser_ok [OF load_two_users [of None], of "[2, 1]"] by simp
qed

subsection \<open>Creating users\<close>

lemma create_seq_state:
  assumes "at_path d = NotExist" "write_fault d = None"
  shows "\<exists>m. create_seq args (snd (NewUserDB d)) =
           (map (\<lambda>k. Inr (new_user (int k + 1) (args ! k))) [0..<length args],
            d\<lparr>at_path := Content (Encoded \<lparr>Users = Some m\<rparr>)\<rparr>)
         \<and> (\<forall>i. fmlookup (fmmap coerce_User m) i =
               (if 1 \<le> i \<and> i \<le> int (length args)
                then Some (coerce_User (new_user i (args ! nat (i - 1)))) else None))"
proof (induction args rule: rev_induct)
  case Nil
  show ?case using assms by (intro exI [of _ fmempty]) (simp add: NewUserDB_fresh)
next
  case (snoc a xs)
  then obtain m where
    run: "create_seq xs (snd (NewUserDB d)) =
           (map (\<lambda>k. Inr (new_user (int k + 1) (xs ! k))) [0..<length xs],
            d\<lparr>at_path := Content (Encoded \<lparr>Users = Some m\<rparr>)\<rparr>)"
    and look: "\<forall>i. fmlookup (fmmap coerce_User m) i =
               (if 1 \<le> i \<and> i \<le> int (length xs)
                then Some (coerce_User (new_user i (xs ! nat (i - 1)))) else None)"
    by blast
  define m1 where "m1 = fmmap coerce_User m"
  have card: "fcard (fmdom m1) = length xs"
    using look unfolding m1_def by (intro fcard_dense) simp
  have fixed: "fmmap coerce_User m1 = m1"
    unfolding m1_def by (rule fmap_ext) (simp add: option.map_comp comp_def coerce_User_idem)
  let ?d = "d\<lparr>at_path := Content (Encoded \<lparr>Users = Some m\<rparr>)\<rparr>"
  let ?n = "int (length xs) + 1"
  let ?m = "fmupd ?n (new_user ?n a) m1"
  have load: "loadUserDB ?d = Inr \<lparr>Users = Some m1\<rparr>"
    by (simp add: load_written coerce_document_def m1_def)
  have step: "CreateUser (fst a) (snd a) ?d =
     (Inr (new_user ?n a), d\<lparr>at_path := Content (Encoded \<lparr>Users = Some ?m\<rparr>)\<rparr>)"
    using CreateUser_ok [OF load, of m1 "fst a" "snd a"] assms(2) card
    by simp
  have res: "map (\<lambda>k. Inr (new_user (int k + 1) ((xs @ [a]) ! k))) [0..<length (xs @ [a])] =
        map (\<lambda>k. Inr (new_user (int k + 1) (xs ! k))) [0..<length xs] @ [Inr (new_user ?n a) :: error + User]"
    by (simp add: nth_append)
  have look': "\<forall>i. fmlookup (fmmap coerce_User ?m) i =
               (if 1 \<le> i \<and> i \<le> int (length (xs @ [a]))
                then Some (coerce_User (new_user i ((xs @ [a]) ! nat (i - 1)))) else None)"
  proof
    fix i :: int
    have "fmlookup (fmmap coerce_User ?m) i =
        (if i = ?n then Some (coerce_User (new_user ?n a)) else fmlookup m1 i)"
      using arg_cong [OF fixed, of "\<lambda>m. fmlookup m i"] by simp
    also have "\<dots> = (if 1 \<le> i \<and> i \<le> int (length (xs @ [a]))
                then Some (coerce_User (new_user i ((xs @ [a]) ! nat (i - 1)))) else None)"
    proof (cases "i = ?n")
      case True
      then show ?thesis by (simp add: nth_append)
    next
      case False
      then show ?thesis using look unfolding m1_def by (auto simp: nth_append)
    qed
    finally show "fmlookup (fmmap coerce_User ?m) i =
               (if 1 \<le> i \<and> i \<le> int (length (xs @ [a]))
                then Some (coerce_User (new_user i ((xs @ [a]) ! nat (i - 1)))) else None)" .
  qed
  have "create_seq (xs @ [a]) (snd (NewUserDB d)) =
     (map (\<lambda>k. Inr (new_user (int k + 1) ((xs @ [a]) ! k))) [0..<length (xs @ [a])],
      d\<lparr>at_path := Content (Encoded \<lparr>Users = Some ?m\<rparr>)\<rparr>)"
    unfolding create_seq_snoc run res using step by simp
  with look' show ?case by blast
qed

text \<open>
  Claim C1. On a disk where the file does not exist and writes succeed, \<^verbatim>\<open>NewUserDB\<close>
  followed by any sequence \<open>args\<close> of \<^verbatim>\<open>CreateUser\<close> calls gives: the call number
  \<open>k + 1\<close> returns the record with ID \<open>k + 1\<close> built from its arguments; the
  document that the disk holds afterwards has exactly the keys \<open>1..N\<close>, \<open>N\<close> the number of
  calls, and holds under key \<open>i\<close> the record of the \<open>i\<close>-th call, as the JSON text gives
  it back (\<open>coerce_User\<close>), which is the record itself when its email is valid UTF-8.
  Call by call: the call number \<open>k + 1\<close> runs on a document \<open>s\<close>, returns the record
  whose ID is \<^verbatim>\<open>len(s.Users) + 1\<close>, and the document it writes holds that record under
  that key.
\<close>

theorem create_sequence:
  assumes "at_path d = NotExist" and "write_fault d = None"
  shows "(\<exists>s. fst (create_seq args (snd (NewUserDB d))) =
              map (\<lambda>k. Inr (new_user (int k + 1) (args ! k))) [0..<length args]
          \<and> loadUserDB (snd (create_seq args (snd (NewUserDB d)))) = Inr s
          \<and> (\<forall>i. lookup_map (Users s) i =
                (if 1 \<le> i \<and> i \<le> int (length args)
                 then Some (coerce_User (new_user i (args ! nat (i - 1)))) else None))
          \<and> len_map (Users s) = int (length args))
       \<and> (\<forall>k<length args. \<exists>s s'.
            loadUserDB (snd (create_seq (take k args) (snd (NewUserDB d)))) = Inr s
          \<and> CreateUser (fst (args ! k)) (snd (args ! k))
               (snd (create_seq (take k args) (snd (NewUserDB d)))) =
              (Inr (new_user (len_map (Users s) + 1) (args ! k)),
               d\<lparr>at_path := Content (Encoded s')\<rparr>)
          \<and> lookup_map (Users s') (len_map (Users s) + 1) =
              Some (new_user (len_map (Users s) + 1) (args ! k)))
       \<and> (\<forall>k<length args. ValidString (fst (args ! k)) \<longrightarrow>
            coerce_User (new_user (int k + 1) (args ! k)) = new_user (int k + 1) (args ! k))"
proof (intro conjI allI impI)
  obtain m where
    run: "create_seq args (snd (NewUserDB d)) =
            (map (\<lambda>k. Inr (new_user (int k + 1) (args ! k))) [0..<length args],
             d\<lparr>at_path := Content (Encoded \<lparr>Users = Some m\<rparr>)\<rparr>)"
    and look: "\<forall>i. fmlookup (fmmap coerce_User m) i =
                (if 1 \<le> i \<and> i \<le> int (length args)
                 then Some (coerce_User (new_user i (args ! nat (i - 1)))) else None)"
    using create_seq_state [OF assms, of args] by blast
  let ?s = "\<lparr>Users = Some (fmmap coerce_User m)\<rparr>"
  have "fcard (fmdom (fmmap coerce_User m)) = length args"
    using look by (intro fcard_dense) simp
  then have len: "len_map (Users ?s) = int (length args)"
    by (simp add: len_map_def)
  have load: "loadUserDB (snd (create_seq args (snd (NewUserDB d)))) = Inr ?s"
    unfolding run by (simp add: load_written coerce_document_def)
  have look': "\<forall>i. lookup_map (Users ?s) i =
                (if 1 \<le> i \<and> i \<le> int (length args)
                 then Some (coerce_User (new_user i (args ! nat (i - 1)))) else None)"
    using look by (simp add: lookup_map_def)
  have res: "fst (create_seq args (snd (NewUserDB d))) =
              map (\<lambda>k. Inr (new_user (int k + 1) (args ! k))) [0..<length args]"
    unfolding run by simp
  from res load look' len
  show "\<exists>s. fst (create_seq args (snd (NewUserDB d))) =
              map (\<lambda>k. Inr (new_user (int k + 1) (args ! k))) [0..<length args]
          \<and> loadUserDB (snd (create_seq args (snd (NewUserDB d)))) = Inr s
          \<and> (\<forall>i. lookup_map (Users s) i =
                (if 1 \<le> i \<and> i \<le> int (length args)
                 then Some (coerce_User (new_user i (args ! nat (i - 1)))) else None))
          \<and> len_map (Users s) = int (length args)"
    by blast
next
  fix k assume k: "k < length args"
  let ?dk = "snd (create_seq (take k args) (snd (NewUserDB d)))"
  obtain m where
    run: "?dk = d\<lparr>at_path := Content (Encoded \<lparr>Users = Some m\<rparr>)\<rparr>"
    and look: "\<forall>i. fmlookup (fmmap coerce_User m) i =
                (if 1 \<le> i \<and> i \<le> int (length (take k args))
                 then Some (coerce_User (new_user i (take k args ! nat (i - 1)))) else None)"
    using create_seq_state [OF assms, of "take k args"] by force
  define m1 where "m1 = fmmap coerce_User m"
  have card: "fcard (fmdom m1) = length (take k args)"
    using look unfolding m1_def by (intro fcard_dense) simp
  let ?s = "\<lparr>Users = Some m1\<rparr>"
  let ?n = "len_map (Users ?s) + 1"
  let ?s' = "\<lparr>Users = Some (fmupd ?n (new_user ?n (args ! k)) m1)\<rparr>"
  have load: "loadUserDB ?dk = Inr ?s"
    unfolding run by (simp add: load_written coerce_document_def m1_def)
  have fault: "write_fault ?dk = None"
    unfolding run using assms(2) by simp
  have step: "CreateUser (fst (args ! k)) (snd (args ! k)) ?dk =
      (Inr (new_user ?n (args ! k)), d\<lparr>at_path := Content (Encoded ?s')\<rparr>)"
    using CreateUser_ok [OF load _ fault, of m1 "fst (args ! k)" "snd (args ! k)"]
    unfolding run by (simp add: len_map_def)
  have stored: "lookup_map (Users ?s') ?n = Some (new_user ?n (args ! k))"
    by (simp add: lookup_map_def)
  from load step stored
  show "\<exists>s s'.
            loadUserDB ?dk = Inr s
          \<and> CreateUser (fst (args ! k)) (snd (args ! k)) ?dk =
              (Inr (new_user (len_map (Users s) + 1) (args ! k)),
               d\<lparr>at_path := Content (Encoded s')\<rparr>)
          \<and> lookup_map (Users s') (len_map (Users s) + 1) =
              Some (new_user (len_map (Users s) + 1) (args ! k))"
    by blast
next
  fix k assume "ValidString (fst (args ! k))"
  then show "coerce_User (new_user (int k + 1) (args ! k)) = new_user (int k + 1) (args ! k)"
    by (rule coerce_new_user)
qed

theorem create_sequence_witness:
  "fst (create_seq [(''a@x.com'', Some [1]), (''b@x.com'', Some [2])]
     (snd (NewUserDB \<lparr>at_path = NotExist, write_fault = None\<rparr>))) =
   [Inr \<lparr>Email = ''a@x.com'', ID = 1, Password = Some [1], RefreshToken = [], IsChirpyRed = False\<rparr>,
    Inr \<lparr>Email = ''b@x.com'', ID = 2, Password = Some [2], RefreshToken = [], IsChirpyRed = False\<rparr>]
   \<and> loadUserDB (snd (create_seq [(''a@x.com'', Some [1]), (''b@x.com'', Some [2])]
        (snd (NewUserDB \<lparr>at_path = NotExist, write_fault = None\<rparr>)))) =
      Inr \<lparr>Users = Some
       (fmupd 2 \<lparr>Email = ''b@x.com'', ID = 2, Password = Some [2], RefreshToken = [], IsChirpyRed = False\<rparr>
       (fmupd 1 \<lparr>Email = ''a@x.com'', ID = 1, Password = Some [1], RefreshToken = [], IsChirpyRed = False\<rparr>
        fmempty))\<rparr>"
proof -
  let ?d = "\<lparr>at_path = NotExist, write_fault = None\<rparr>"
  let ?args = "[(''a@x.com'', Some [1::byte]), (''b@x.com'', Some [2])]"
  have h1: "at_path ?d = NotExist" by simp
  have h2: "write_fault ?d = None" by simp
  obtain s where
    res: "fst (create_seq ?args (snd (NewUserDB ?d))) =
            map (\<lambda>k. Inr (new_user (int k + 1) (?args ! k))) [0..<length ?args]"
    and load: "loadUserDB (snd (create_seq ?args (snd (NewUserDB ?d)))) = Inr s"
    and look: "\<forall>i. lookup_map (Users s) i =
                (if 1 \<le> i \<and> i \<le> int (length ?args)
                 then Some (coerce_User (new_user i (?args ! nat (i - 1)))) else None)"
    using create_sequence [OF h1 h2, of ?args] by blast
  obtain m where m: "Users s = Some m"
    using look [rule_format, of 1] by (cases "Users s") (simp_all add: lookup_map_def)
  have "m = fmupd 2 (new_user 2 (''b@x.com'', Some [2])) (fmupd 1 (new_user 1 (''a@x.com'', Some [1])) fmempty)"
  proof (rule fmap_ext)
    fix i :: int
    consider "i = 1" | "i = 2" | "\<not> (1 \<le> i \<and> i \<le> 2)" by linarith
    then show "fmlookup m i = fmlookup (fmupd 2 (new_user 2 (''b@x.com'', Some [2])) (fmupd 1 (new_user 1 (''a@x.com'', Some [1])) fmempty)) i"
      using look [rule_format, of i] m
      by cases (auto simp: lookup_map_def coerce_User_new_user ascii_fixed)
  qed
  then have "s = \<lparr>Users = Some (fmupd 2 (new_user 2 (''b@x.com'', Some [2])) (fmupd 1 (new_user 1 (''a@x.com'', Some [1])) fmempty))\<rparr>"
    using m by (cases s) simp
  with res load show ?thesis
    by (simp add: new_user_def upt_conv_Cons)
qed

text \<open>
  Claim C10. Whenever \<^verbatim>\<open>CreateUser\<close> returns a record, that record has the empty refresh
  token and the upgrade flag false, carries the email and the password of the call, and is
  the record that the document \<open>s'\<close> written to disk holds under the record's ID; the
  document loaded from the disk afterwards holds it there too, with the email as the text
  gives it back. The call looks at no email of the document: on a disk that holds a
  document with a non-nil map and accepts the write, it succeeds for every email, one
  already in use included.
\<close>

theorem create_defaults:
  "(CreateUser e p d = (Inr u, d') \<longrightarrow>
      RefreshToken u = [] \<and> IsChirpyRed u = False \<and> Email u = e \<and> Password u = p
      \<and> (\<exists>s'. at_path d' = Content (Encoded s') \<and> lookup_map (Users s') (ID u) = Some u)
      \<and> (\<exists>s''. loadUserDB d' = Inr s''
             \<and> lookup_map (Users s'') (ID u) = Some (u\<lparr>Email := coerce e\<rparr>)))
   \<and> (loadUserDB d = Inr s \<and> Users s \<noteq> None \<and> write_fault d = None \<longrightarrow>
      (\<exists>u' d''. CreateUser e p d = (Inr u', d'') \<and> Email u' = e))"
proof (intro conjI impI)
  assume run: "CreateUser e p d = (Inr u, d')"
  then obtain s m where s: "loadUserDB d = Inr s" "Users s = Some m" "write_fault d = None"
    using CreateUser_Inr by blast
  note ok = CreateUser_ok [OF s, of e p]
  let ?n = "int (fcard (fmdom m)) + 1"
  let ?s = "s\<lparr>Users := Some (fmupd ?n (new_user ?n (e, p)) m)\<rparr>"
  have u: "u = new_user ?n (e, p)"
    and d': "d' = d\<lparr>at_path := Content (Encoded ?s)\<rparr>"
    using run unfolding ok by auto
  show "RefreshToken u = []" "IsChirpyRed u = False" "Email u = e" "Password u = p"
    unfolding u by (simp_all add: new_user_def)
  have "at_path d' = Content (Encoded ?s) \<and> lookup_map (Users ?s) (ID u) = Some u"
    unfolding u d' by (simp add: lookup_map_def new_user_def)
  then show "\<exists>s'. at_path d' = Content (Encoded s') \<and> lookup_map (Users s') (ID u) = Some u"
    by blast
  have "loadUserDB d' = Inr (coerce_document ?s)
      \<and> lookup_map (Users (coerce_document ?s)) (ID u) = Some (u\<lparr>Email := coerce e\<rparr>)"
    unfolding u d'
    by (simp add: load_written coerce_document_upd lookup_map_def new_user_def coerce_User_def
        coerce_Nil)
  then show "\<exists>s''. loadUserDB d' = Inr s''
             \<and> lookup_map (Users s'') (ID u) = Some (u\<lparr>Email := coerce e\<rparr>)"
    by blast
next
  assume "loadUserDB d = Inr s \<and> Users s \<noteq> None \<and> write_fault d = None"
  then obtain m where "loadUserDB d = Inr s" "Users s = Some m" "write_fault d = None"
    by auto
  from CreateUser_ok [OF this, of e p]
  show "\<exists>u' d''. CreateUser e p d = (Inr u', d'') \<and> Email u' = e"
    by (simp add: new_user_def)
qed

theorem create_defaults_witness:
  "CreateUser ''a@x.com'' (Some [7]) (on_disk two_users None) =
     (Inr \<lparr>Email = ''a@x.com'', ID = 3, Password = Some [7], RefreshToken = [], IsChirpyRed = False\<rparr>,
      on_disk \<lparr>Users = Some (fmupd 3
          \<lparr>Email = ''a@x.com'', ID = 3, Password = Some [7], RefreshToken = [], IsChirpyRed = False\<rparr>
          (fmupd 2 bob (fmupd 1 alice fmempty)))\<rparr> None)
   \<and> Email alice = ''a@x.com''"
proof -
  let ?d = "on_disk two_users None"
  have pre: "loadUserDB ?d = Inr two_users \<and> Users two_users \<noteq> None \<and> write_fault ?d = None"
    by (simp add: load_two_users) (simp add: two_users_def on_disk_def)
  obtain u d' where run: "CreateUser ''a@x.com'' (Some [7]) ?d = (Inr u, d')"
    using create_defaults [of "''a@x.com''" "Some [7]" ?d _ _ two_users] pre by blast
  have fields: "RefreshToken u = [] \<and> IsChirpyRed u = False \<and> Email u = ''a@x.com'' \<and> Password u = Some [7]"
    using create_defaults [of "''a@x.com''" "Some [7]" ?d u d' two_users] run by blast
  have "CreateUser ''a@x.com'' (Some [7]) ?d =
     (Inr (new_user 3 (''a@x.com'', Some [7])),
      ?d\<lparr>at_path := Content (Encoded (two_users\<lparr>Users := Some (fmupd 3 (new_user 3 (''a@x.com'', Some [7]))
          (fmupd 2 bob (fmupd 1 alice fmempty)))\<rparr>))\<rparr>)"
    using CreateUser_ok [OF load_two_users, of "fmupd 2 bob (fmupd 1 alice fmempty)" None "''a@x.com''" "Some [7]"]
    by (simp add: on_disk_def two_users_def fcard_finsert_if fcard_fempty)
  with run fields show ?thesis
    by (simp add: new_user_def on_disk_def two_users_def alice_def)
qed

subsection \<open>Listing and reading users\<close>

text \<open>
  Claim C6. For every document on disk and every order \<open>ks\<close> in which the loop may visit
  the map, \<^verbatim>\<open>GetUser\<close> returns a list that is sorted in ascending order of the \<open>ID\<close>
  field and holds exactly the records of the document, each as often as the map holds it;
  the disk is left as it was.
\<close>

theorem GetUser_sorted:
  assumes "loadUserDB d = Inr s" and "range_order (Users s) ks"
  shows "\<exists>users. GetUser ks d = (Inr users, d)
           \<and> sorted (map ID users)
           \<and> mset users = records (Users s)"
  using assms by (simp add: GetUser_ok range_map_mset)

theorem GetUser_sorted_witness:
  "GetUser [1, 2] (on_disk swapped None) =
     (Inr [alice\<lparr>ID := 3\<rparr>, bob\<lparr>ID := 7\<rparr>], on_disk swapped None)
   \<and> sorted (map ID [alice\<lparr>ID := 3\<rparr>, bob\<lparr>ID := 7\<rparr>])
   \<and> mset [alice\<lparr>ID := 3\<rparr>, bob\<lparr>ID := 7\<rparr>] = records (Users swapped)"
proof -
  have order: "range_order (Users swapped) [1, 2]"
    by (auto simp: swapped_def range_order_def)
  have run: "GetUser [1, 2] (on_disk swapped None) =
     (Inr [alice\<lparr>ID := 3\<rparr>, bob\<lparr>ID := 7\<rparr>], on_disk swapped None)"
  proof -
    have "sort_key ID (range_map (Users swapped) [1, 2]) = [alice\<lparr>ID := 3\<rparr>, bob\<lparr>ID := 7\<rparr>]"
      by (simp add: swapped_def range_map_def List.map_filter_simps alice_def bob_def)
    then show ?thesis
      using GetUser_ok [OF load_swapped [of None], of "[1, 2]"] by simp
  qed
  from GetUser_sorted [OF load_swapped order, of None] run show ?thesis
    by auto
qed

text \<open>
  Claim C2. For every document on disk with \<open>N\<close> records and every order of the visit,
  \<^verbatim>\<open>GetUserByID\<close> with \<open>1 \<le> i \<le> N\<close> returns the element at position \<open>i - 1\<close> of the
  list \<open>users\<close> that \<^verbatim>\<open>GetUser\<close> returns, which is sorted by ID and has \<open>N\<close> elements;
  with \<open>i \<le> 0\<close> or \<open>i > N\<close> it fails with the error "invalid ID".
\<close>

theorem GetUserByID_position:
  assumes "loadUserDB d = Inr s" and "range_order (Users s) ks"
  shows "\<exists>users. GetUser ks d = (Inr users, d)
           \<and> sorted (map ID users)
           \<and> int (length users) = len_map (Users s)
           \<and> (1 \<le> i \<and> i \<le> len_map (Users s) \<longrightarrow>
                GetUserByID ks i d = (Inr (users ! nat (i - 1)), d))
           \<and> (i \<le> 0 \<or> len_map (Users s) < i \<longrightarrow>
                GetUserByID ks i d = (Inl ErrInvalidID, d))"
proof -
  let ?users = "sort_key ID (range_map (Users s) ks)"
  have get: "GetUser ks d = (Inr ?users, d)"
    using assms(1) by (rule GetUser_ok)
  have len: "int (length ?users) = len_map (Users s)"
    using range_map_length [OF assms(2)] by simp
  have inside: "1 \<le> i \<and> i \<le> len_map (Users s) \<longrightarrow>
                GetUserByID ks i d = (Inr (?users ! nat (i - 1)), d)"
    using len by (simp add: GetUserByID_def get)
  have outside: "i \<le> 0 \<or> len_map (Users s) < i \<longrightarrow>
                GetUserByID ks i d = (Inl ErrInvalidID, d)"
    using len by (auto simp: GetUserByID_def get)
  from get len inside outside show ?thesis
    by (intro exI [of _ ?users]) simp
qed

theorem GetUserByID_position_witness:
  "GetUserByID [2, 1] 2 (on_disk two_users None) = (Inr bob, on_disk two_users None)
   \<and> GetUserByID [2, 1] 3 (on_disk two_users None) = (Inl ErrInvalidID, on_disk two_users None)
   \<and> GetUserByID [2, 1] 0 (on_disk two_users None) = (Inl ErrInvalidID, on_disk two_users None)"
proof -
  note at = GetUserByID_position [OF load_two_users order_two_users, of None]
  obtain users where
    "GetUser [2, 1] (on_disk two_users None) = (Inr users, on_disk two_users None)"
    and "1 \<le> (2::int) \<and> 2 \<le> len_map (Users two_users) \<longrightarrow>
          GetUserByID [2, 1] 2 (on_disk two_users None) =
           (Inr (users ! nat (2 - 1)), on_disk two_users None)"
    using at [of 2] by blast
  then have inside: "GetUserByID [2, 1] 2 (on_disk two_users None) = (Inr bob, on_disk two_users None)"
    by (auto simp: GetUser_two_users len_two_users)
  have above: "GetUserByID [2, 1] 3 (on_disk two_users None) = (Inl ErrInvalidID, on_disk two_users None)"
    using at [of 3] by (auto simp: len_two_users)
  have below: "GetUserByID [2, 1] 0 (on_disk two_users None) = (Inl ErrInvalidID, on_disk two_users None)"
    using at [of 0] by (auto simp: len_two_users)
  from inside above below show ?thesis by simp
qed

subsection \<open>Updating users and tokens\<close>

text \<open>
  Claim C3. When the ID is not a key of the document \<open>s\<close> on disk and the write succeeds,
  \<^verbatim>\<open>UpdateUserDB\<close>, \<^verbatim>\<open>StoreToken\<close> and \<^verbatim>\<open>RevokeToken\<close> report no error,
  \<^verbatim>\<open>UpdateUserDB\<close> returns the zero record, and the file is rewritten with the text of
  \<open>s\<close>, from which the same document \<open>s\<close> is loaded again. The file is written all the
  same: when the write fails, each of the three reports the failure.
\<close>

theorem absent_ID_no_change:
  assumes "loadUserDB d = Inr s" and "lookup_map (Users s) i = None"
  shows "(write_fault d = None \<longrightarrow>
            UpdateUserDB i e p d = (Inr User_zero, d\<lparr>at_path := Content (Encoded s)\<rparr>)
          \<and> StoreToken i t d = (None, d\<lparr>at_path := Content (Encoded s)\<rparr>)
          \<and> RevokeToken i d = (None, d\<lparr>at_path := Content (Encoded s)\<rparr>)
          \<and> loadUserDB (d\<lparr>at_path := Content (Encoded s)\<rparr>) = Inr s)
       \<and> (write_fault d \<noteq> None \<longrightarrow>
            fst (UpdateUserDB i e p d) = Inl ErrWrite
          \<and> fst (StoreToken i t d) = Some ErrWrite
          \<and> fst (RevokeToken i d) = Some ErrWrite)"
proof (intro conjI impI)
  { assume ok: "write_fault d = None"
    have w: "writeUserDB d s = (None, d\<lparr>at_path := Content (Encoded s)\<rparr>)"
      using ok by (rule writeUserDB_ok)
    show "UpdateUserDB i e p d = (Inr User_zero, d\<lparr>at_path := Content (Encoded s)\<rparr>)"
      using assms w by (simp add: UpdateUserDB_def index_map_def)
    show "StoreToken i t d = (None, d\<lparr>at_path := Content (Encoded s)\<rparr>)"
      using assms w by (simp add: StoreToken_def)
    show "RevokeToken i d = (None, d\<lparr>at_path := Content (Encoded s)\<rparr>)"
      using assms w by (simp add: RevokeToken_def)
    show "loadUserDB (d\<lparr>at_path := Content (Encoded s)\<rparr>) = Inr s"
      using loaded_fixed [OF assms(1)] by (simp add: load_written)
  }
  { assume "write_fault d \<noteq> None"
    then have w: "fst (writeUserDB d s) = Some ErrWrite"
      by (cases "write_fault d"; cases "the (write_fault d)")
         (simp_all add: writeUserDB_Refused writeUserDB_Partial)
    show "fst (UpdateUserDB i e p d) = Inl ErrWrite"
      using assms w by (cases "writeUserDB d s") (simp add: UpdateUserDB_def)
    show "fst (StoreToken i t d) = Some ErrWrite"
      using assms w by (simp add: StoreToken_def)
    show "fst (RevokeToken i d) = Some ErrWrite"
      using assms w by (simp add: RevokeToken_def)
  }
qed

theorem absent_ID_no_change_witness:
  "UpdateUserDB 5 ''c@x.com'' (Some [9]) (on_disk two_users None) = (Inr User_zero, on_disk two_users None)
   \<and> StoreToken 5 ''t'' (on_disk two_users None) = (None, on_disk two_users None)
   \<and> RevokeToken 5 (on_disk two_users None) = (None, on_disk two_users None)
   \<and> loadUserDB (on_disk two_users None) = Inr two_users
   \<and> fst (UpdateUserDB 5 ''c@x.com'' (Some [9]) (on_disk two_users (Some Refused))) = Inl ErrWrite
   \<and> fst (StoreToken 5 ''t'' (on_disk two_users (Some Refused))) = Some ErrWrite
   \<and> fst (RevokeToken 5 (on_disk two_users (Some Refused))) = Some ErrWrite"
proof -
  have absent: "lookup_map (Users two_users) 5 = None"
    by (simp add: two_users_def lookup_map_def)
  have ok: "write_fault (on_disk two_users None) = None"
    and ko: "write_fault (on_disk two_users (Some Refused)) \<noteq> None"
    and same: "(on_disk two_users None)\<lparr>at_path := Content (Encoded two_users)\<rparr> = on_disk two_users None"
    by (simp_all add: on_disk_def)
  from absent_ID_no_change [OF load_two_users absent, of None "''c@x.com''" "Some [9]" "''t''"]
    absent_ID_no_change [OF load_two_users absent, of "Some Refused" "''c@x.com''" "Some [9]" "''t''"]
    ok ko same
  show ?thesis by simp
qed

lemma update_entry:
  assumes "loadUserDB d = Inr s" and "lookup_map (Users s) i = Some u"
  shows "\<exists>m. Users s = Some m \<and> fmlookup m i = Some u \<and> fmmap coerce_User m = m
           \<and> coerce_User u = u"
proof -
  obtain m where m: "Users s = Some m" "fmlookup m i = Some u"
    using assms(2) by (cases "Users s") (simp_all add: lookup_map_def)
  note fixed = loaded_fixed [OF assms(1)]
  from m fixed_map [OF fixed m(1)] fixed_record [OF fixed assms(2)] show ?thesis
    by blast
qed

text \<open>
  \<^verbatim>\<open>UpdateUserDB\<close> on a key of the document, for any new email: the document \<open>s'\<close> it
  writes holds the record it returns; the document \<open>s''\<close> loaded from the disk afterwards
  holds that record with the email as the JSON text gives it back.
\<close>

lemma UpdateUserDB_present:
  assumes "loadUserDB d = Inr s" and "lookup_map (Users s) i = Some u"
    and "write_fault d = None"
  shows "\<exists>s' s''. UpdateUserDB i e p d =
            (Inr (u\<lparr>Email := e, Password := p\<rparr>), d\<lparr>at_path := Content (Encoded s')\<rparr>)
          \<and> lookup_map (Users s') i = Some (u\<lparr>Email := e, Password := p\<rparr>)
          \<and> (\<forall>k. k \<noteq> i \<longrightarrow> lookup_map (Users s') k = lookup_map (Users s) k)
          \<and> len_map (Users s') = len_map (Users s)
          \<and> loadUserDB (d\<lparr>at_path := Content (Encoded s')\<rparr>) = Inr s''
          \<and> lookup_map (Users s'') i = Some (u\<lparr>Email := coerce e, Password := p\<rparr>)
          \<and> (\<forall>k. k \<noteq> i \<longrightarrow> lookup_map (Users s'') k = lookup_map (Users s) k)
          \<and> len_map (Users s'') = len_map (Users s)
          \<and> Email (u\<lparr>Email := e, Password := p\<rparr>) = e
          \<and> Password (u\<lparr>Email := e, Password := p\<rparr>) = p
          \<and> ID (u\<lparr>Email := e, Password := p\<rparr>) = ID u
          \<and> RefreshToken (u\<lparr>Email := e, Password := p\<rparr>) = RefreshToken u
          \<and> IsChirpyRed (u\<lparr>Email := e, Password := p\<rparr>) = IsChirpyRed u"
proof -
  obtain m where m: "Users s = Some m" "fmlookup m i = Some u"
    and fixed: "fmmap coerce_User m = m" "coerce_User u = u"
    using update_entry [OF assms(1,2)] by blast
  let ?u = "u\<lparr>Email := e, Password := p\<rparr>"
  let ?s = "s\<lparr>Users := Some (fmupd i ?u m)\<rparr>"
  let ?s2 = "coerce_document ?s"
  have run: "UpdateUserDB i e p d = (Inr ?u, d\<lparr>at_path := Content (Encoded ?s)\<rparr>)"
    using assms m
    by (simp add: UpdateUserDB_def assign_map_def writeUserDB_ok index_map_def lookup_map_def)
  have "i |\<in>| fmdom m"
    using m(2) by (rule fmdomI)
  then have "finsert i (fmdom m) = fmdom m"
    by auto
  then have len: "len_map (Users ?s) = len_map (Users s)"
    using m(1) by (simp add: len_map_def)
  have others: "\<forall>k. k \<noteq> i \<longrightarrow> lookup_map (Users ?s) k = lookup_map (Users s) k"
    using m(1) by (simp add: lookup_map_def)
  have here: "lookup_map (Users ?s) i = Some ?u"
    by (simp add: lookup_map_def)
  have token: "coerce (RefreshToken u) = RefreshToken u"
    using arg_cong [OF fixed(2), of RefreshToken] by (simp add: coerce_User_def)
  have "coerce_User ?u = u\<lparr>Email := coerce e, Password := p\<rparr>"
    using token by (cases u) (simp add: coerce_User_def)
  then have doc: "?s2 = \<lparr>Users = Some (fmupd i (u\<lparr>Email := coerce e, Password := p\<rparr>) m)\<rparr>"
    using fixed(1) by (simp add: coerce_document_upd)
  have load: "loadUserDB (d\<lparr>at_path := Content (Encoded ?s)\<rparr>) = Inr ?s2"
    by (rule load_written)
  have here2: "lookup_map (Users ?s2) i = Some (u\<lparr>Email := coerce e, Password := p\<rparr>)"
    unfolding doc by (simp add: lookup_map_def)
  have others2: "\<forall>k. k \<noteq> i \<longrightarrow> lookup_map (Users ?s2) k = lookup_map (Users s) k"
    unfolding doc using m(1) by (simp add: lookup_map_def)
  have len2: "len_map (Users ?s2) = len_map (Users s)"
    unfolding Users_coerce_document len_map_coerce using len .
  from run here others len load here2 others2 len2 show ?thesis
    by (intro exI [of _ ?s] exI [of _ ?s2]) simp
qed

text \<open>
  Claim C4, amended. When the ID \<open>i\<close> is a key of the document on disk, with record \<open>u\<close>,
  the write succeeds and the new email \<open>e\<close> is valid UTF-8, \<^verbatim>\<open>UpdateUserDB\<close> returns \<open>u\<close>
  with the new email and password, and the document \<open>s'\<close> it writes, which is also the
  document loaded from the disk afterwards, holds that record under \<open>i\<close> and, under every
  other key, what the document held before. ID, refresh token and upgrade flag of the
  record are those of \<open>u\<close>.
\<close>

theorem update_existing:
  assumes "loadUserDB d = Inr s" and "lookup_map (Users s) i = Some u"
    and "write_fault d = None" and "ValidString e"
  shows "\<exists>s'. UpdateUserDB i e p d =
            (Inr (u\<lparr>Email := e, Password := p\<rparr>), d\<lparr>at_path := Content (Encoded s')\<rparr>)
          \<and> loadUserDB (d\<lparr>at_path := Content (Encoded s')\<rparr>) = Inr s'
          \<and> lookup_map (Users s') i = Some (u\<lparr>Email := e, Password := p\<rparr>)
          \<and> (\<forall>k. k \<noteq> i \<longrightarrow> lookup_map (Users s') k = lookup_map (Users s) k)
          \<and> len_map (Users s') = len_map (Users s)
          \<and> Email (u\<lparr>Email := e, Password := p\<rparr>) = e
          \<and> Password (u\<lparr>Email := e, Password := p\<rparr>) = p
          \<and> ID (u\<lparr>Email := e, Password := p\<rparr>) = ID u
          \<and> RefreshToken (u\<lparr>Email := e, Password := p\<rparr>) = RefreshToken u
          \<and> IsChirpyRed (u\<lparr>Email := e, Password := p\<rparr>) = IsChirpyRed u"
proof -
  obtain m where m: "Users s = Some m" "fmlookup m i = Some u"
    and fixed: "fmmap coerce_User m = m" "coerce_User u = u"
    using update_entry [OF assms(1,2)] by blast
  let ?u = "u\<lparr>Email := e, Password := p\<rparr>"
  let ?s = "s\<lparr>Users := Some (fmupd i ?u m)\<rparr>"
  let ?d = "d\<lparr>at_path := Content (Encoded ?s)\<rparr>"
  have run: "UpdateUserDB i e p d = (Inr ?u, ?d)"
    using assms m
    by (simp add: UpdateUserDB_def assign_map_def writeUserDB_ok index_map_def lookup_map_def)
  have "i |\<in>| fmdom m"
    using m(2) by (rule fmdomI)
  then have "finsert i (fmdom m) = fmdom m"
    by auto
  then have len: "len_map (Users ?s) = len_map (Users s)"
    using m(1) by (simp add: len_map_def)
  have others: "\<forall>k. k \<noteq> i \<longrightarrow> lookup_map (Users ?s) k = lookup_map (Users s) k"
    using m(1) by (simp add: lookup_map_def)
  have here: "lookup_map (Users ?s) i = Some ?u"
    by (simp add: lookup_map_def)
  have token: "coerce (RefreshToken u) = RefreshToken u"
    using arg_cong [OF fixed(2), of RefreshToken] by (simp add: coerce_User_def)
  have email: "coerce e = e"
    using assms(4) by (rule coerce_ValidString)
  have "coerce_User ?u = ?u"
    using token email by (simp add: coerce_User_def)
  then have "coerce_document ?s = ?s"
    using fixed(1) by (simp add: coerce_document_upd)
  then have load: "loadUserDB ?d = Inr ?s"
    using load_written [of ?s d] by simp
  from run load here others len show ?thesis
    by (intro exI [of _ ?s]) simp
qed

theorem update_existing_witness:
  "\<exists>s'. UpdateUserDB 1 ''c@x.com'' (Some [9]) (on_disk two_users None) =
          (Inr \<lparr>Email = ''c@x.com'', ID = 1, Password = Some [9], RefreshToken = ''tok'',
                IsChirpyRed = False\<rparr>,
           on_disk s' None)
       \<and> loadUserDB (on_disk s' None) = Inr s'
       \<and> lookup_map (Users s') 1 =
           Some \<lparr>Email = ''c@x.com'', ID = 1, Password = Some [9], RefreshToken = ''tok'',
                 IsChirpyRed = False\<rparr>
       \<and> lookup_map (Users s') 2 = Some bob"
proof -
  have present: "lookup_map (Users two_users) 1 = Some alice"
    by (simp add: two_users_def lookup_map_def)
  have ok: "write_fault (on_disk two_users None) = None"
    by (simp add: on_disk_def)
  have valid: "ValidString ''c@x.com''"
    by (simp add: ValidString_ascii)
  obtain s' where
    run: "UpdateUserDB 1 ''c@x.com'' (Some [9]) (on_disk two_users None) =
            (Inr (alice\<lparr>Email := ''c@x.com'', Password := Some [9]\<rparr>),
             (on_disk two_users None)\<lparr>at_path := Content (Encoded s')\<rparr>)"
    and load: "loadUserDB ((on_disk two_users None)\<lparr>at_path := Content (Encoded s')\<rparr>) = Inr s'"
    and here: "lookup_map (Users s') 1 = Some (alice\<lparr>Email := ''c@x.com'', Password := Some [9]\<rparr>)"
    and others: "\<forall>k. k \<noteq> 1 \<longrightarrow> lookup_map (Users s') k = lookup_map (Users two_users) k"
    using update_existing [OF load_two_users present ok valid, of "Some [9]"] by blast
  have two: "lookup_map (Users s') 2 = Some bob"
    using others by (simp add: two_users_def lookup_map_def)
  have same: "(on_disk two_users None)\<lparr>at_path := Content (Encoded s')\<rparr> = on_disk s' None"
    by (simp add: on_disk_def)
  from run load here two show ?thesis
    unfolding same by (intro exI [of _ s']) (simp add: alice_def)
qed

subsection \<open>The example documents as text\<close>

lemma coerce_invalid_byte: "coerce [CHR 0xFF] = [CHR 0xEF, CHR 0xBF, CHR 0xBD]"
  by (simp add: coerce_Cons coerce_Nil DecodeRune_def first_size_def valid_rune_def
      EncodeRune_def RuneError_def char_of_eq_iff)

text \<open>
  For every new email, as the claim is stated, it fails: with the email \<^verbatim>\<open>"\xff"\<close> the
  record returned carries that email, and the record that the store holds afterwards
  carries the three bytes of U+FFFD instead. The last line is the same fact on the bytes of
  the file.
\<close>

theorem update_lossy:
  "UpdateUserDB 1 [CHR 0xFF] (Some [9]) (on_disk two_users None) =
     (Inr (alice\<lparr>Email := [CHR 0xFF], Password := Some [9]\<rparr>),
      on_disk \<lparr>Users = Some (fmupd 1 (alice\<lparr>Email := [CHR 0xFF], Password := Some [9]\<rparr>)
                 (fmupd 2 bob (fmupd 1 alice fmempty)))\<rparr> None)
   \<and> loadUserDB (on_disk \<lparr>Users = Some (fmupd 1 (alice\<lparr>Email := [CHR 0xFF], Password := Some [9]\<rparr>)
                 (fmupd 2 bob (fmupd 1 alice fmempty)))\<rparr> None) =
       Inr \<lparr>Users = Some (fmupd 1 (alice\<lparr>Email := [CHR 0xEF, CHR 0xBF, CHR 0xBD], Password := Some [9]\<rparr>)
                 (fmupd 2 bob (fmupd 1 alice fmempty)))\<rparr>
   \<and> lookup_map (Users \<lparr>Users = Some (fmupd 1 (alice\<lparr>Email := [CHR 0xEF, CHR 0xBF, CHR 0xBD], Password := Some [9]\<rparr>)
                 (fmupd 2 bob (fmupd 1 alice fmempty)))\<rparr>) 1 \<noteq>
       Some (alice\<lparr>Email := [CHR 0xFF], Password := Some [9]\<rparr>)
   \<and> Unmarshal (Marshal \<lparr>Users = Some (fmupd 1 (alice\<lparr>Email := [CHR 0xFF], Password := Some [9]\<rparr>)
                 (fmupd 2 bob (fmupd 1 alice fmempty)))\<rparr>) =
       Inr \<lparr>Users = Some (fmupd 1 (alice\<lparr>Email := [CHR 0xEF, CHR 0xBF, CHR 0xBD], Password := Some [9]\<rparr>)
                 (fmupd 2 bob (fmupd 1 alice fmempty)))\<rparr>"
proof -
  let ?raw = "alice\<lparr>Email := [CHR 0xFF], Password := Some [9]\<rparr>"
  let ?rep = "alice\<lparr>Email := [CHR 0xEF, CHR 0xBF, CHR 0xBD], Password := Some [9]\<rparr>"
  let ?m = "fmupd 2 bob (fmupd 1 alice fmempty)"
  have present: "lookup_map (Users two_users) 1 = Some alice"
    by (simp add: two_users_def lookup_map_def)
  have run: "UpdateUserDB 1 [CHR 0xFF] (Some [9]) (on_disk two_users None) =
      (Inr ?raw, on_disk \<lparr>Users = Some (fmupd 1 ?raw ?m)\<rparr> None)"
    using load_two_users [of None] present
    by (simp add: UpdateUserDB_def assign_map_def writeUserDB_ok index_map_def lookup_map_def
        on_disk_def two_users_def)
  have "coerce_User ?raw = ?rep"
    by (simp add: coerce_User_def alice_def coerce_invalid_byte ascii_fixed)
  then have doc: "coerce_document \<lparr>Users = Some (fmupd 1 ?raw ?m)\<rparr> = \<lparr>Users = Some (fmupd 1 ?rep ?m)\<rparr>"
    by (simp add: coerce_document_def fmmap_fmupd coerce_alice coerce_bob)
  have load: "loadUserDB (on_disk \<lparr>Users = Some (fmupd 1 ?raw ?m)\<rparr> None) =
      Inr \<lparr>Users = Some (fmupd 1 ?rep ?m)\<rparr>"
    using doc by (simp add: on_disk_def loadUserDB_Encoded)
  have differ: "lookup_map (Users \<lparr>Users = Some (fmupd 1 ?rep ?m)\<rparr>) 1 \<noteq> Some ?raw"
    by (simp add: lookup_map_def alice_def)
  have "int64_document \<lparr>Users = Some (fmupd 1 ?raw ?m)\<rparr>"
    unfolding int64_document_def
    by (auto intro!: fmpred_upd simp: int64_def alice_def bob_def)
  then have bytes: "Unmarshal (Marshal \<lparr>Users = Some (fmupd 1 ?raw ?m)\<rparr>) =
      Inr \<lparr>Users = Some (fmupd 1 ?rep ?m)\<rparr>"
    using Unmarshal_Marshal doc by simp
  from run load differ bytes show ?thesis
    by simp
qed

text \<open>
  Claim C5. When the ID is not a key of the document on disk, \<^verbatim>\<open>UpgradeUser\<close> fails
  with the error "invalid user id" and the disk is as it was. When it is a key, with
  record \<open>u\<close>, and the write succeeds, the document \<open>s'\<close> written, which is also the
  document loaded afterwards, holds \<open>u\<close> with the upgrade flag true under that key and is
  unchanged under every other key; a second \<^verbatim>\<open>UpgradeUser\<close> on the result succeeds and
  leaves the disk exactly as the first one left it.
\<close>

theorem upgrade_user:
  assumes "loadUserDB d = Inr s"
  shows "(lookup_map (Users s) i = None \<longrightarrow> UpgradeUser i d = (Some ErrInvalidUserID, d))
       \<and> (\<forall>u. lookup_map (Users s) i = Some u \<and> write_fault d = None \<longrightarrow>
            (\<exists>s'. UpgradeUser i d = (None, d\<lparr>at_path := Content (Encoded s')\<rparr>)
               \<and> loadUserDB (d\<lparr>at_path := Content (Encoded s')\<rparr>) = Inr s'
               \<and> lookup_map (Users s') i = Some (u\<lparr>IsChirpyRed := True\<rparr>)
               \<and> (\<forall>k. k \<noteq> i \<longrightarrow> lookup_map (Users s') k = lookup_map (Users s) k)
               \<and> UpgradeUser i (d\<lparr>at_path := Content (Encoded s')\<rparr>) =
                   (None, d\<lparr>at_path := Content (Encoded s')\<rparr>)))"
proof (intro conjI allI impI)
  assume "lookup_map (Users s) i = None"
  then show "UpgradeUser i d = (Some ErrInvalidUserID, d)"
    using assms by (simp add: UpgradeUser_def)
next
  fix u
  assume a: "lookup_map (Users s) i = Some u \<and> write_fault d = None"
  then obtain m where m: "Users s = Some m" "fmlookup m i = Some u"
    and fixed: "fmmap coerce_User m = m" "coerce_User u = u"
    using update_entry [OF assms, of i u] by blast
  let ?u = "u\<lparr>IsChirpyRed := True\<rparr>"
  let ?s = "s\<lparr>Users := Some (fmupd i ?u m)\<rparr>"
  let ?d = "d\<lparr>at_path := Content (Encoded ?s)\<rparr>"
  have once: "UpgradeUser i d = (None, ?d)"
    using assms a m by (simp add: UpgradeUser_def assign_map_def writeUserDB_ok)
  have "coerce_User ?u = ?u"
    using arg_cong [OF fixed(2), of Email] arg_cong [OF fixed(2), of RefreshToken]
    by (simp add: coerce_User_def)
  then have "coerce_document ?s = ?s"
    using fixed(1) by (simp add: coerce_document_upd)
  then have load: "loadUserDB ?d = Inr ?s"
    using load_written [of ?s d] by simp
  have same: "fmupd i ?u (fmupd i ?u m) = fmupd i ?u m"
    by (rule fmap_ext) simp
  have twice: "UpgradeUser i ?d = (None, ?d)"
    using a load same
    by (simp add: UpgradeUser_def assign_map_def writeUserDB_ok lookup_map_def)
  have others: "\<forall>k. k \<noteq> i \<longrightarrow> lookup_map (Users ?s) k = lookup_map (Users s) k"
    using m(1) by (simp add: lookup_map_def)
  have here: "lookup_map (Users ?s) i = Some ?u"
    by (simp add: lookup_map_def)
  from once load here others twice
  show "\<exists>s'. UpgradeUser i d = (None, d\<lparr>at_path := Content (Encoded s')\<rparr>)
               \<and> loadUserDB (d\<lparr>at_path := Content (Encoded s')\<rparr>) = Inr s'
               \<and> lookup_map (Users s') i = Some (u\<lparr>IsChirpyRed := True\<rparr>)
               \<and> (\<forall>k. k \<noteq> i \<longrightarrow> lookup_map (Users s') k = lookup_map (Users s) k)
               \<and> UpgradeUser i (d\<lparr>at_path := Content (Encoded s')\<rparr>) =
                   (None, d\<lparr>at_path := Content (Encoded s')\<rparr>)"
    by (intro exI [of _ ?s]) simp
qed

theorem upgrade_user_witness:
  "UpgradeUser 5 (on_disk two_users None) = (Some ErrInvalidUserID, on_disk two_users None)
   \<and> (\<exists>s'. UpgradeUser 1 (on_disk two_users None) = (None, on_disk s' None)
          \<and> loadUserDB (on_disk s' None) = Inr s'
          \<and> UpgradeUser 1 (on_disk s' None) = (None, on_disk s' None)
          \<and> lookup_map (Users s') 1 = Some (alice\<lparr>IsChirpyRed := True\<rparr>)
          \<and> lookup_map (Users s') 2 = Some bob)"
proof -
  have absent: "lookup_map (Users two_users) 5 = None"
    and present: "lookup_map (Users two_users) 1 = Some alice \<and> write_fault (on_disk two_users None) = None"
    and other: "lookup_map (Users two_users) 2 = Some bob"
    by (simp_all add: two_users_def lookup_map_def on_disk_def)
  note at = upgrade_user [OF load_two_users [of None]]
  have missing: "UpgradeUser 5 (on_disk two_users None) = (Some ErrInvalidUserID, on_disk two_users None)"
    using at [of 5] absent by simp
  obtain s' where
    "UpgradeUser 1 (on_disk two_users None) =
       (None, (on_disk two_users None)\<lparr>at_path := Content (Encoded s')\<rparr>)"
    "loadUserDB ((on_disk two_users None)\<lparr>at_path := Content (Encoded s')\<rparr>) = Inr s'"
    "lookup_map (Users s') 1 = Some (alice\<lparr>IsChirpyRed := True\<rparr>)"
    "\<forall>k. k \<noteq> 1 \<longrightarrow> lookup_map (Users s') k = lookup_map (Users two_users) k"
    "UpgradeUser 1 ((on_disk two_users None)\<lparr>at_path := Content (Encoded s')\<rparr>) =
       (None, (on_disk two_users None)\<lparr>at_path := Content (Encoded s')\<rparr>)"
    using at [of 1] present by blast
  then have "UpgradeUser 1 (on_disk two_users None) = (None, on_disk s' None)
          \<and> loadUserDB (on_disk s' None) = Inr s'
          \<and> UpgradeUser 1 (on_disk s' None) = (None, on_disk s' None)
          \<and> lookup_map (Users s') 1 = Some (alice\<lparr>IsChirpyRed := True\<rparr>)
          \<and> lookup_map (Users s') 2 = Some bob"
    using other by (simp add: on_disk_def)
  with missing show ?thesis by blast
qed

subsection \<open>The ID of a record is its key\<close>

text \<open>
  Every writing call keeps \<open>keyed_by_ID\<close>: it writes either nothing, or the loaded document
  with one record added under its own ID, or with one record replaced by a record of the
  same ID; a write that fails leaves the old file or no document at all. Reading the text
  back changes no ID.
\<close>

lemma keyed_by_ID_write:
  assumes "keyed_by_ID d" and "\<And>m. Users s = Some m \<Longrightarrow> fmpred (\<lambda>k u. ID u = k) m"
  shows "keyed_by_ID (snd (writeUserDB d s))"
proof (cases "write_fault d")
  case None
  then show ?thesis
    using assms(2)
    by (cases "Users s")
       (simp_all add: writeUserDB_ok keyed_by_ID_def load_written coerce_document_def
          coerce_User_fields)
next
  case (Some f)
  then show ?thesis
    using assms(1)
    by (cases f) (simp_all add: writeUserDB_Refused writeUserDB_Partial keyed_by_ID_def
        loadUserDB_def os_ReadFile_def json_Unmarshal_def)
qed

lemma keyed_by_ID_load:
  "keyed_by_ID d \<Longrightarrow> loadUserDB d = Inr s \<Longrightarrow> Users s = Some m \<Longrightarrow> fmpred (\<lambda>k u. ID u = k) m"
  by (simp add: keyed_by_ID_def)

lemma keyed_by_ID_CreateUser:
  assumes "keyed_by_ID d"
  shows "keyed_by_ID (snd (CreateUser body password d))"
proof (cases "loadUserDB d")
  case (Inl err)
  then show ?thesis using assms by (simp add: CreateUser_def)
next
  case (Inr s)
  show ?thesis
  proof (cases "Users s")
    case None
    then show ?thesis using assms Inr by (simp add: CreateUser_def assign_map_def)
  next
    case (Some m)
    let ?n = "len_map (Users s) + 1"
    let ?u = "\<lparr>Email = body, ID = ?n, Password = password, RefreshToken = [], IsChirpyRed = False\<rparr>"
    let ?s = "s\<lparr>Users := Some (fmupd ?n ?u m)\<rparr>"
    have "fmpred (\<lambda>k u. ID u = k) (fmupd ?n ?u m)"
      using keyed_by_ID_load [OF assms Inr Some] by (intro fmpred_upd) simp_all
    then have "keyed_by_ID (snd (writeUserDB d ?s))"
      using assms by (intro keyed_by_ID_write) simp_all
    moreover have "snd (CreateUser body password d) = snd (writeUserDB d ?s)"
      using Inr Some
      by (cases "writeUserDB d ?s"; cases "fst (writeUserDB d ?s)")
         (simp_all add: CreateUser_def assign_map_def Let_def)
    ultimately show ?thesis by simp
  qed
qed

lemma keyed_by_ID_modify:
  assumes "keyed_by_ID d" and "loadUserDB d = Inr s" and "\<And>u. ID (f u) = ID u"
  shows "keyed_by_ID (snd (writeUserDB d
           (case lookup_map (Users s) i of
              Some user \<Rightarrow> s\<lparr>Users := Some (fmupd i (f user) (the (Users s)))\<rparr>
            | None \<Rightarrow> s)))"
proof (cases "Users s")
  case None
  then show ?thesis
    using assms(1) by (intro keyed_by_ID_write) (simp_all add: lookup_map_def)
next
  case (Some m)
  note inv = keyed_by_ID_load [OF assms(1,2) Some]
  show ?thesis
  proof (cases "fmlookup m i")
    case None
    then show ?thesis
      using assms(1) Some inv by (intro keyed_by_ID_write) (simp_all add: lookup_map_def)
  next
    case (Some u)
    then have "ID u = i"
      using inv by (auto dest: fmpredD)
    then have "fmpred (\<lambda>k u. ID u = k) (fmupd i (f u) m)"
      using inv assms(3) by (intro fmpred_upd) simp_all
    then show ?thesis
      using assms(1) Some \<open>Users s = Some m\<close>
      by (intro keyed_by_ID_write) (simp_all add: lookup_map_def)
  qed
qed

lemma modify_doc:
  "(case (case lookup_map (Users s) i of
            Some user \<Rightarrow>
              (case assign_map (Users s) i (f user) of
                 None \<Rightarrow> None
               | Some users \<Rightarrow> Some (s\<lparr>Users := users\<rparr>))
          | None \<Rightarrow> Some s) of
      None \<Rightarrow> a
    | Some s' \<Rightarrow> b s') =
   b (case lookup_map (Users s) i of
        Some user \<Rightarrow> s\<lparr>Users := Some (fmupd i (f user) (the (Users s)))\<rparr>
      | None \<Rightarrow> s)"
  by (cases "Users s"; cases "lookup_map (Users s) i")
     (simp_all add: lookup_map_def assign_map_def)

lemma keyed_by_ID_UpdateUserDB:
  assumes "keyed_by_ID d"
  shows "keyed_by_ID (snd (UpdateUserDB i body password d))"
proof (cases "loadUserDB d")
  case (Inl err)
  then show ?thesis using assms by (simp add: UpdateUserDB_def)
next
  case (Inr s)
  let ?s = "case lookup_map (Users s) i of
              Some user \<Rightarrow> s\<lparr>Users := Some (fmupd i (user\<lparr>Email := body, Password := password\<rparr>) (the (Users s)))\<rparr>
            | None \<Rightarrow> s"
  have "snd (UpdateUserDB i body password d) = snd (writeUserDB d ?s)"
    unfolding UpdateUserDB_def Inr sum.case
      modify_doc [where f = "\<lambda>user. user\<lparr>Email := body, Password := password\<rparr>"]
    by (cases "writeUserDB d ?s"; cases "fst (writeUserDB d ?s)") simp_all
  then show ?thesis
    using keyed_by_ID_modify [OF assms Inr, of "\<lambda>user. user\<lparr>Email := body, Password := password\<rparr>" i]
    by simp
qed

lemma keyed_by_ID_StoreToken:
  assumes "keyed_by_ID d"
  shows "keyed_by_ID (snd (StoreToken i token d))"
proof (cases "loadUserDB d")
  case (Inl err)
  then show ?thesis using assms by (simp add: StoreToken_def)
next
  case (Inr s)
  show ?thesis
    unfolding StoreToken_def Inr sum.case
      modify_doc [where f = "\<lambda>user. user\<lparr>RefreshToken := token\<rparr>"]
    using keyed_by_ID_modify [OF assms Inr, of "\<lambda>user. user\<lparr>RefreshToken := token\<rparr>" i]
    by simp
qed

lemma keyed_by_ID_RevokeToken:
  assumes "keyed_by_ID d"
  shows "keyed_by_ID (snd (RevokeToken i d))"
proof (cases "loadUserDB d")
  case (Inl err)
  then show ?thesis using assms by (simp add: RevokeToken_def)
next
  case (Inr s)
  show ?thesis
    unfolding RevokeToken_def Inr sum.case
      modify_doc [where f = "\<lambda>user. user\<lparr>RefreshToken := []\<rparr>"]
    using keyed_by_ID_modify [OF assms Inr, of "\<lambda>user. user\<lparr>RefreshToken := []\<rparr>" i]
    by simp
qed

lemma keyed_by_ID_UpgradeUser:
  assumes "keyed_by_ID d"
  shows "keyed_by_ID (snd (UpgradeUser i d))"
proof (cases "loadUserDB d")
  case (Inl err)
  then show ?thesis using assms by (simp add: UpgradeUser_def)
next
  case (Inr s)
  show ?thesis
  proof (cases "lookup_map (Users s) i")
    case None
    then show ?thesis using assms Inr by (simp add: UpgradeUser_def)
  next
    case (Some u)
    then obtain m where m: "Users s = Some m"
      by (cases "Users s") (simp_all add: lookup_map_def)
    have "snd (UpgradeUser i d) =
        snd (writeUserDB d (case lookup_map (Users s) i of
              Some user \<Rightarrow> s\<lparr>Users := Some (fmupd i (user\<lparr>IsChirpyRed := True\<rparr>) (the (Users s)))\<rparr>
            | None \<Rightarrow> s))"
      using Inr Some m by (simp add: UpgradeUser_def assign_map_def)
    then show ?thesis
      using keyed_by_ID_modify [OF assms Inr, of "\<lambda>user. user\<lparr>IsChirpyRed := True\<rparr>" i]
      by simp
  qed
qed

lemma keyed_by_ID_env: "keyed_by_ID (d\<lparr>write_fault := w\<rparr>) = keyed_by_ID d"
  by (simp add: keyed_by_ID_def loadUserDB_def os_ReadFile_def)

lemma keyed_by_ID_after_call: "keyed_by_ID d \<Longrightarrow> keyed_by_ID (after_call c d)"
  by (cases c)
     (simp_all add: keyed_by_ID_CreateUser keyed_by_ID_UpdateUserDB keyed_by_ID_UpgradeUser
        keyed_by_ID_StoreToken keyed_by_ID_RevokeToken)

lemma keyed_by_ID_after_calls: "keyed_by_ID d \<Longrightarrow> keyed_by_ID (after_calls cs d)"
  by (induction cs arbitrary: d) (simp_all add: keyed_by_ID_after_call keyed_by_ID_env)

text \<open>
  Claim C8. Start from a disk that holds the empty document and run any sequence of
  \<^verbatim>\<open>CreateUser\<close>, \<^verbatim>\<open>UpdateUserDB\<close>, \<^verbatim>\<open>UpgradeUser\<close>, \<^verbatim>\<open>StoreToken\<close> and
  \<^verbatim>\<open>RevokeToken\<close> calls, with writes that succeed or fail in any pattern. If the
  disk then holds a document, every record of it has as \<open>ID\<close> the key it is stored under.
\<close>

theorem ID_is_key:
  assumes "loadUserDB (after_calls cs \<lparr>at_path = Content (Encoded \<lparr>Users = Some fmempty\<rparr>),
                                        write_fault = w\<rparr>) = Inr s"
    and "lookup_map (Users s) k = Some u"
  shows "ID u = k"
proof -
  let ?d = "\<lparr>at_path = Content (Encoded \<lparr>Users = Some fmempty\<rparr>), write_fault = w\<rparr>"
  have "keyed_by_ID ?d"
    by (simp add: keyed_by_ID_def loadUserDB_Encoded coerce_document_def)
  then have inv: "keyed_by_ID (after_calls cs ?d)"
    by (rule keyed_by_ID_after_calls)
  obtain m where m: "Users s = Some m" "fmlookup m k = Some u"
    using assms(2) by (cases "Users s") (simp_all add: lookup_map_def)
  from keyed_by_ID_load [OF inv assms(1) m(1)] m(2) show ?thesis
    by (auto dest: fmpredD)
qed

theorem ID_is_key_witness:
  "\<exists>s. loadUserDB (after_calls
       [(None, Create ''a@x.com'' (Some [1])), (Some Refused, Create ''x'' (Some [])), (None, Upgrade 1),
        (None, Create ''b'' (Some []))]
       \<lparr>at_path = Content (Encoded \<lparr>Users = Some fmempty\<rparr>), write_fault = None\<rparr>) = Inr s
     \<and> lookup_map (Users s) 2 =
         Some \<lparr>Email = ''b'', ID = 2, Password = Some [], RefreshToken = [], IsChirpyRed = False\<rparr>
     \<and> ID \<lparr>Email = ''b'', ID = 2, Password = Some [], RefreshToken = [], IsChirpyRed = False\<rparr> = 2"
proof -
  let ?cs = "[(None, Create ''a@x.com'' (Some [1])), (Some Refused, Create ''x'' (Some [])), (None, Upgrade 1),
        (None, Create ''b'' (Some []))]"
  let ?d = "\<lparr>at_path = Content (Encoded \<lparr>Users = Some fmempty\<rparr>), write_fault = None\<rparr>"
  let ?a = "\<lparr>Email = ''a@x.com'', ID = 1, Password = Some [1], RefreshToken = [], IsChirpyRed = True\<rparr>"
  let ?b = "\<lparr>Email = ''b'', ID = 2, Password = Some [], RefreshToken = [], IsChirpyRed = False\<rparr>"
  let ?s = "\<lparr>Users = Some (fmupd 2 ?b (fmupd 1 ?a (fmupd 1 (?a\<lparr>IsChirpyRed := False\<rparr>) fmempty)))\<rparr>"
  have load: "loadUserDB (after_calls ?cs ?d) = Inr ?s"
    by (simp add: CreateUser_def UpgradeUser_def loadUserDB_def os_ReadFile_def json_Unmarshal_def
        writeUserDB_def json_Marshal_def os_WriteFile_def len_map_def assign_map_def
        lookup_map_def index_map_def fcard_finsert_if fcard_fempty Let_def
        coerce_document_def coerce_User_def fmmap_fmupd ascii_fixed coerce_Nil)
  have look: "lookup_map (Users ?s) 2 = Some ?b"
    by (simp add: lookup_map_def)
  from ID_is_key [OF load look] load look show ?thesis
    by blast
qed

lemma coerce_mallory: "coerce_User mallory = mallory\<lparr>Email := [CHR 0xEF, CHR 0xBF, CHR 0xBD]\<rparr>"
  by (simp add: coerce_User_def mallory_def coerce_invalid_byte coerce_Nil)

lemma appendString_invalid_byte:
  "appendString [CHR 0xFF] = CHR 0x22 # CHR 0x5C # ''ufffd'' @ [CHR 0x22]"
  by (simp add: appendString_def appendString_from_Cons appendString_from_Nil
      appendString_step_def DecodeRune_def first_size_def RuneError_def)

lemma appendString_empty: "appendString [] = [CHR 0x22, CHR 0x22]"
  by (simp add: appendString_def appendString_from_Nil)

lemma appendString_one: "appendString ''1'' = CHR 0x22 # ''1'' @ [CHR 0x22]"
  by (simp add: appendString_def appendString_from_Cons appendString_from_Nil
      appendString_step_def htmlSafeSet_def)

lemma FormatInt_one: "FormatInt 1 = ''1''"
  by (simp add: FormatInt_def format_uint_small char_of_eq_iff)

lemma Marshal_mallory:
  "Marshal (only mallory) =
     ''{\"users\":{\"1\":{\"email\":\"'' @ CHR 0x5C #
     ''ufffd\",\"id\":1,\"password\":\"AQ==\",\"refreshToken\":\"\",\"is_chirpy_red\":false}}}''"
  by (simp add: Marshal_def only_def mapEncoder_def sorted_keys_def encode_entry_def
      encode_User_def mallory_def appendString_invalid_byte appendString_empty appendString_one
      FormatInt_one encodeByteSlice_def boolEncoder_def encodeStd_def
      sorted_list_of_fset.rep_eq)

lemma ValidString_tricky: "ValidString (Email tricky)"
  by (simp add: tricky_def ValidString_Cons ValidString_Nil DecodeRune_def first_size_def
      accept_lo_def accept_hi_def valid_rune_def RuneError_def)

lemma valid_three_users: "valid_document three_users" "int64_document three_users"
proof -
  have "valid_User alice" "valid_User bob"
    by (simp_all add: valid_User_def alice_def bob_def ValidString_ascii)
  moreover have "valid_User tricky"
    using ValidString_tricky by (simp add: valid_User_def) (simp add: tricky_def ValidString_ascii)
  ultimately show "valid_document three_users"
    unfolding valid_document_def three_users_def by (auto intro!: fmpred_upd)
  show "int64_document three_users"
    unfolding int64_document_def three_users_def
    by (auto intro!: fmpred_upd simp: int64_def alice_def bob_def tricky_def)
qed

lemma FormatInt_examples:
  "FormatInt 2 = ''2''" "FormatInt 10 = ''10''" "FormatInt (- 12) = ''-12''"
  by (simp_all add: FormatInt_def format_uint_small format_uint_large char_of_eq_iff)

lemma sorted_keys_three_users:
  "sorted_keys (fmupd 10 tricky (fmupd 2 bob (fmupd 1 alice fmempty))) = [1, 10, 2]"
proof -
  have "sorted_list_of_fset (fmdom (fmupd 10 tricky (fmupd 2 bob (fmupd 1 alice fmempty)))) = [1, 2, 10 :: int]"
    by (simp add: sorted_list_of_fset.rep_eq)
  then show ?thesis
    by (simp add: sorted_keys_def FormatInt_examples FormatInt_one less_eq_char_def less_char_def)
qed

lemma appendString_examples:
  "appendString ''a@x.com'' = CHR 0x22 # ''a@x.com'' @ [CHR 0x22]"
  "appendString ''b@x.com'' = CHR 0x22 # ''b@x.com'' @ [CHR 0x22]"
  "appendString ''tok'' = CHR 0x22 # ''tok'' @ [CHR 0x22]"
  "appendString ''2'' = CHR 0x22 # ''2'' @ [CHR 0x22]"
  "appendString ''10'' = CHR 0x22 # ''10'' @ [CHR 0x22]"
  by (simp_all add: appendString_def appendString_from_Cons appendString_from_Nil
      appendString_step_def htmlSafeSet_def)

lemma appendString_tricky:
  "appendString (Email tricky) =
     CHR 0x22 # ''a'' @ [CHR 0x5C, CHR 0x22, CHR 0x5C, CHR 0x5C, CHR 0x5C] @ ''n'' @
     CHR 0x5C # ''u0001'' @ CHR 0x7F # CHR 0x5C # ''u2029'' @ [CHR 0xC3, CHR 0xA9, CHR 0x5C] @
     ''u003c'' @ [CHR 0x22]"
  by (simp add: tricky_def appendString_def appendString_from_Cons appendString_from_Nil
      appendString_step_def htmlSafeSet_def escape_byte_def hex_def DecodeRune_def
      first_size_def accept_lo_def accept_hi_def RuneError_def char_of_eq_iff)

text \<open>
  The text of \<open>three_users\<close>: the keys in the order of their decimal texts, the email
  of the second record with its escapes.
\<close>

lemma Marshal_three_users:
  "Marshal three_users =
     ''{\"users\":{'' @
     ''\"1\":{\"email\":\"a@x.com\",\"id\":1,\"password\":\"AQI=\",\"refreshToken\":\"tok\",\"is_chirpy_red\":false},'' @
     ''\"10\":{\"email\":'' @ appendString (Email tricky) @
     '',\"id\":-12,\"password\":\"/wABAg==\",\"refreshToken\":\"tok\",\"is_chirpy_red\":true},'' @
     ''\"2\":{\"email\":\"b@x.com\",\"id\":2,\"password\":\"Aw==\",\"refreshToken\":\"\",\"is_chirpy_red\":false}'' @
     ''}}''"
proof -
  have users: "encode_User alice =
      ''{\"email\":\"a@x.com\",\"id\":1,\"password\":\"AQI=\",\"refreshToken\":\"tok\",\"is_chirpy_red\":false}''"
    "encode_User bob =
      ''{\"email\":\"b@x.com\",\"id\":2,\"password\":\"Aw==\",\"refreshToken\":\"\",\"is_chirpy_red\":false}''"
    by (simp_all add: encode_User_def alice_def bob_def appendString_examples appendString_empty
        FormatInt_one FormatInt_examples encodeByteSlice_def boolEncoder_def encodeStd_def)
  have third: "encode_User tricky =
      ''{\"email\":'' @ appendString (Email tricky) @
      '',\"id\":-12,\"password\":\"/wABAg==\",\"refreshToken\":\"tok\",\"is_chirpy_red\":true}''"
  proof -
    have "ID tricky = - 12" "Password tricky = Some [0xFF, 0, 1, 2]"
      "RefreshToken tricky = ''tok''" "IsChirpyRed tricky"
      by (simp_all add: tricky_def)
    then show ?thesis
      by (simp add: encode_User_def appendString_examples FormatInt_examples encodeByteSlice_def
          boolEncoder_def encodeStd_def)
  qed
  show ?thesis
    by (simp add: Marshal_def three_users_def mapEncoder_def sorted_keys_three_users
        encode_entry_def users third appendString_one appendString_examples FormatInt_one
        FormatInt_examples)
qed

subsection \<open>Writing a document and loading it back\<close>

text \<open>
  The store's abstract decoder is the decoder on the bytes, for every document whose
  integers are 64-bit integers.
\<close>

lemma store_codec:
  "int64_document s \<Longrightarrow> json_Unmarshal (Encoded s) = Unmarshal (Marshal s)"
  by (simp add: json_Unmarshal_def Unmarshal_Marshal)

text \<open>
  Claim C7, amended. For every document whose emails and refresh tokens are valid UTF-8
  (and whose keys and IDs are 64-bit integers, as every \<^verbatim>\<open>int\<close> of Go is), the text that
  \<^verbatim>\<open>json.Marshal\<close> writes is read back by \<^verbatim>\<open>json.Unmarshal\<close> as the same
  document: the same keys and, in every record, the same five fields, the password with
  its bytes and with the difference between nil and empty. So \<^verbatim>\<open>writeUserDB\<close>, when the
  write succeeds, followed by \<^verbatim>\<open>loadUserDB\<close> gives the document back.
\<close>

theorem round_trip:
  assumes "valid_document s" and "int64_document s"
  shows "Unmarshal (Marshal s) = Inr s
       \<and> (write_fault d = None \<longrightarrow>
            writeUserDB d s = (None, d\<lparr>at_path := Content (Encoded s)\<rparr>)
          \<and> loadUserDB (d\<lparr>at_path := Content (Encoded s)\<rparr>) = Inr s)"
  using assms
  by (simp add: Unmarshal_Marshal coerce_valid_document writeUserDB_ok load_written)

theorem round_trip_witness:
  "Unmarshal (Marshal three_users) = Inr three_users
   \<and> writeUserDB \<lparr>at_path = NotExist, write_fault = None\<rparr> three_users =
       (None, on_disk three_users None)
   \<and> loadUserDB (on_disk three_users None) = Inr three_users"
  using round_trip [OF valid_three_users, of "\<lparr>at_path = NotExist, write_fault = None\<rparr>"]
  by (simp add: on_disk_def)

text \<open>
  For every document, as the claim is stated, it fails: the encoder writes a byte that
  starts no valid UTF-8 sequence as \<^verbatim>\<open>\ufffd\<close>, so a document with the email \<^verbatim>\<open>"\xff"\<close>
  is written as the text below and read back with the three bytes of U+FFFD as its email.
  In general the document read back is \<open>coerce_document s\<close> (lemma \<open>Unmarshal_Marshal\<close>).
\<close>

theorem round_trip_lossy:
  "Marshal (only mallory) =
     ''{\"users\":{\"1\":{\"email\":\"'' @ CHR 0x5C #
     ''ufffd\",\"id\":1,\"password\":\"AQ==\",\"refreshToken\":\"\",\"is_chirpy_red\":false}}}''
   \<and> Unmarshal (Marshal (only mallory)) =
       Inr (only (mallory\<lparr>Email := [CHR 0xEF, CHR 0xBF, CHR 0xBD]\<rparr>))
   \<and> Unmarshal (Marshal (only mallory)) \<noteq> Inr (only mallory)
   \<and> loadUserDB (snd (writeUserDB \<lparr>at_path = NotExist, write_fault = None\<rparr> (only mallory))) \<noteq>
       Inr (only mallory)"
proof -
  have int64: "int64_document (only mallory)"
    unfolding int64_document_def only_def by (auto intro!: fmpred_upd simp: int64_def mallory_def)
  have doc: "coerce_document (only mallory) = only (mallory\<lparr>Email := [CHR 0xEF, CHR 0xBF, CHR 0xBD]\<rparr>)"
    by (simp add: coerce_document_def only_def coerce_mallory fmmap_fmupd)
  have differ: "only (mallory\<lparr>Email := [CHR 0xEF, CHR 0xBF, CHR 0xBD]\<rparr>) \<noteq> only mallory"
  proof
    assume "only (mallory\<lparr>Email := [CHR 0xEF, CHR 0xBF, CHR 0xBD]\<rparr>) = only mallory"
    then have "fmlookup (fmupd 1 (mallory\<lparr>Email := [CHR 0xEF, CHR 0xBF, CHR 0xBD]\<rparr>) fmempty) (1::int) =
        fmlookup (fmupd 1 mallory fmempty) 1"
      by (simp add: only_def)
    then show False
      by (simp add: mallory_def)
  qed
  have bytes: "Unmarshal (Marshal (only mallory)) =
       Inr (only (mallory\<lparr>Email := [CHR 0xEF, CHR 0xBF, CHR 0xBD]\<rparr>))"
    using Unmarshal_Marshal [OF int64] doc by simp
  have store: "loadUserDB (snd (writeUserDB \<lparr>at_path = NotExist, write_fault = None\<rparr> (only mallory))) =
       Inr (only (mallory\<lparr>Email := [CHR 0xEF, CHR 0xBF, CHR 0xBD]\<rparr>))"
    using doc by (simp add: writeUserDB_ok loadUserDB_Encoded)
  from Marshal_mallory bytes store differ show ?thesis
    by simp
qed

end
